theory Spec2Isabelle
  imports Main "HOL-Library.Word" "HOL-Library.AList"
begin

section \<open>The program\<close>

text \<open>
  The source is \<^verbatim>\<open>index.js\<close>, a chat bot that keeps sign-up lists. The file holds an
  earlier copy of the program in front of the current one; the definitions below follow
  the current copy, which starts at the second \<^verbatim>\<open>require('express')\<close> and defines
  \<^verbatim>\<open>csvEscape\<close>, \<^verbatim>\<open>parseCsvLine\<close>, \<^verbatim>\<open>saveCurrentListSnapshot\<close>,
  \<^verbatim>\<open>restoreGamesFromCsv\<close>, \<^verbatim>\<open>checkSchedules\<close>, \<^verbatim>\<open>handleEvent\<close>,
  \<^verbatim>\<open>addToList\<close>, \<^verbatim>\<open>removeFromList\<close>, \<^verbatim>\<open>removeAnon\<close> and \<^verbatim>\<open>sendList\<close>.
  The registry of games is the state; writing it to the stores and sending a message
  do not change it, and a handler is a function from the registry to its reply and the
  new registry.
\<close>

section \<open>Strings of the program\<close>

text \<open>
  A JavaScript string is a sequence of UTF-16 code units, and every string operation of
  \<^verbatim>\<open>index.js\<close> used below (indexing, \<^verbatim>\<open>===\<close>, \<^verbatim>\<open>includes\<close>, \<^verbatim>\<open>split\<close>,
  \<^verbatim>\<open>trim\<close>, the regular expressions) works on code units. A string is therefore a
  list of 16-bit words. ASCII literals are written through \<open>js\<close>; the Chinese literals
  of the source are written as their code units.
\<close>

type_synonym jschar = "16 word"
type_synonym jsstring = "jschar list"

definition js :: "string \<Rightarrow> jsstring" where
  "js s = map of_char s"

abbreviation DQ :: jschar where "DQ \<equiv> 0x22"
abbreviation COMMA :: jschar where "COMMA \<equiv> 0x2C"
abbreviation CR :: jschar where "CR \<equiv> 0x0D"
abbreviation LF :: jschar where "LF \<equiv> 0x0A"

section \<open>CSV fields: \<^verbatim>\<open>csvEscape\<close> and \<^verbatim>\<open>parseCsvLine\<close>\<close>

text \<open>
  \<^verbatim>\<open>s.replace(/"/g, '""')\<close>: every double quote is doubled.
\<close>

primrec double_quotes :: "jsstring \<Rightarrow> jsstring" where
  "double_quotes [] = []"
| "double_quotes (c # cs) = (if c = DQ then [DQ, DQ] else [c]) @ double_quotes cs"

text \<open>
  \<^verbatim>\<open>/[",\r\n]/.test(s)\<close>: the string holds a quote, a comma, a carriage return or a
  line feed.
\<close>

definition needs_quoting :: "jsstring \<Rightarrow> bool" where
  "needs_quoting s = list_ex (\<lambda>c. c = DQ \<or> c = COMMA \<or> c = CR \<or> c = LF) s"

text \<open>
  \<^verbatim>\<open>csvEscape(v)\<close> on a string \<open>v\<close> (every caller passes strings; \<^verbatim>\<open>String(v)\<close> is
  then the identity and the \<^verbatim>\<open>null\<close>/\<^verbatim>\<open>undefined\<close> branch is not taken).
\<close>

definition csvEscape :: "jsstring \<Rightarrow> jsstring" where
  "csvEscape s = (if needs_quoting s then [DQ] @ double_quotes s @ [DQ] else s)"

text \<open>
  The loop of \<^verbatim>\<open>parseCsvLine\<close>. The arguments are \<^verbatim>\<open>inQuotes\<close>, \<^verbatim>\<open>current\<close>,
  \<^verbatim>\<open>result\<close> and the part of \<^verbatim>\<open>line\<close> from index \<^verbatim>\<open>i\<close> on. Reading
  \<^verbatim>\<open>line[i + 1]\<close> past the end gives \<^verbatim>\<open>undefined\<close>, which is not a quote: that is
  the one-character equation.
\<close>

fun parseCsvLoop :: "bool \<Rightarrow> jsstring \<Rightarrow> jsstring list \<Rightarrow> jsstring \<Rightarrow> jsstring list" where
  "parseCsvLoop inQuotes current result [] = result @ [current]"
| "parseCsvLoop True current result [ch] =
     (if ch = DQ then parseCsvLoop False current result []
      else parseCsvLoop True (current @ [ch]) result [])"
| "parseCsvLoop True current result (ch # nx # rest) =
     (if ch = DQ \<and> nx = DQ then parseCsvLoop True (current @ [DQ]) result rest
      else if ch = DQ then parseCsvLoop False current result (nx # rest)
      else parseCsvLoop True (current @ [ch]) result (nx # rest))"
| "parseCsvLoop False current result (ch # rest) =
     (if ch = COMMA then parseCsvLoop False [] (result @ [current]) rest
      else if ch = DQ then parseCsvLoop True current result rest
      else parseCsvLoop False (current @ [ch]) result rest)"

definition parseCsvLine :: "jsstring \<Rightarrow> jsstring list" where
  "parseCsvLine line = parseCsvLoop False [] [] line"

section \<open>White space, \<^verbatim>\<open>trim\<close>, \<^verbatim>\<open>split\<close>, numbers as text\<close>

text \<open>
  The code units that \<^verbatim>\<open>String.prototype.trim\<close> strips and that \<^verbatim>\<open>\s\<close> matches
  in a regular expression (ECMAScript WhiteSpace and LineTerminator).
\<close>

definition is_space :: "jschar \<Rightarrow> bool" where
  "is_space c = (c = 0x09 \<or> c = 0x0A \<or> c = 0x0B \<or> c = 0x0C \<or> c = 0x0D \<or> c = 0x20 \<or>
     c = 0xA0 \<or> c = 0x1680 \<or> (0x2000 \<le> c \<and> c \<le> 0x200A) \<or> c = 0x2028 \<or> c = 0x2029 \<or>
     c = 0x202F \<or> c = 0x205F \<or> c = 0x3000 \<or> c = 0xFEFF)"

text \<open>The code units that \<^verbatim>\<open>.\<close> does not match (no \<^verbatim>\<open>s\<close> flag).\<close>

definition is_line_terminator :: "jschar \<Rightarrow> bool" where
  "is_line_terminator c = (c = 0x0A \<or> c = 0x0D \<or> c = 0x2028 \<or> c = 0x2029)"

definition trim :: "jsstring \<Rightarrow> jsstring" where
  "trim s = rev (dropWhile is_space (rev (dropWhile is_space s)))"

text \<open>
  \<^verbatim>\<open>s.split(/[...]+/)\<close> for a separator that is a non-empty run of code units of one
  class \<open>sep\<close>: the pieces between the maximal runs, an empty piece in front of a leading
  run and after a trailing one. \<open>cur\<close> is the piece being read.
\<close>

function split_runs :: "(jschar \<Rightarrow> bool) \<Rightarrow> jsstring \<Rightarrow> jsstring \<Rightarrow> jsstring list" where
  "split_runs sep cur [] = [cur]"
| "split_runs sep cur (c # cs) =
     (if sep c then cur # split_runs sep [] (dropWhile sep cs)
      else split_runs sep (cur @ [c]) cs)"
  by pat_completeness auto
termination
  by (relation "measure (\<lambda>(sep, cur, s). length s)")
     (auto simp: length_dropWhile_le less_Suc_eq_le)

text \<open>\<^verbatim>\<open>s.split(/[...]+/).filter(n => n)\<close>: the non-empty pieces.\<close>

definition split_nonempty :: "(jschar \<Rightarrow> bool) \<Rightarrow> jsstring \<Rightarrow> jsstring list" where
  "split_nonempty sep s = filter (\<lambda>n. n \<noteq> []) (split_runs sep [] s)"

text \<open>\<^verbatim>\<open>/pat/.test(s)\<close> for a literal pattern: \<open>pat\<close> occurs somewhere in \<open>s\<close>.\<close>

fun has_infix :: "jsstring \<Rightarrow> jsstring \<Rightarrow> bool" where
  "has_infix pat [] = (pat = [])"
| "has_infix pat (c # cs) = (if take (length pat) (c # cs) = pat then True else has_infix pat cs)"

text \<open>
  Numbers. Every number the modelled code handles is an integer (a \<^verbatim>\<open>parseInt\<close>
  result, a length, an index, a millisecond time stamp), held by the program as a Number,
  that is a double: an integer below \<open>2^53\<close> in magnitude is held as it is, a greater
  one is held only if 53 significant bits are enough for it. An \<open>int\<close> or a \<open>nat\<close>
  stands for the Number of that value, and one that is not a Number for the Number
  nearest to it. \<open>to_number\<close> is that rounding (to the nearest, a tie to the even
  mantissa); from \<open>2^1024\<close> on its result stands for \<^verbatim>\<open>Infinity\<close>. Sums and differences
  are exact here, which is what the program computes as long as they stay below \<open>2^53\<close>.
\<close>

fun bit_len :: "nat \<Rightarrow> nat" where
  "bit_len n = (if n = 0 then 0 else Suc (bit_len (n div 2)))"

definition to_number :: "nat \<Rightarrow> nat" where
  "to_number m =
     (if m < 2 ^ 53 then m
      else let sh = bit_len m - 53; q = m div 2 ^ sh; r = m mod 2 ^ sh; half = 2 ^ (sh - 1)
           in (if half < r \<or> (r = half \<and> odd q) then q + 1 else q) * 2 ^ sh)"

text \<open>The decimal digits of a natural number.\<close>

definition digit_char :: "nat \<Rightarrow> jschar" where
  "digit_char d = of_nat (48 + d)"

fun decimal :: "nat \<Rightarrow> jsstring" where
  "decimal n = (if n < 10 then [digit_char n] else decimal (n div 10) @ [digit_char (n mod 10)])"

text \<open>
  \<^verbatim>\<open>String(n)\<close> and the interpolation \<^verbatim>\<open>${n}\<close> of a Number with an integer value
  (Number::toString of the language). The digits written are those of the integer with
  the fewest significant digits that still rounds to the Number, the nearest such
  integer when there are two. \<open>shortest_from x nd k\<close> looks for it with \<open>k\<close> significant
  digits and more, among the two neighbours of \<open>x\<close> that are multiples of
  \<open>10^(nd - k)\<close>, where \<open>nd\<close> is the number of digits of \<open>x\<close>. An integer of at most 21
  digits is written in full; a longer one is written with an exponent
  (\<^verbatim>\<open>1e+21\<close>, \<^verbatim>\<open>1.2345678901234568e+29\<close>), which is \<open>exponent_text\<close> of its digits.
  Below \<open>2^53\<close> the integer is the Number itself, and the text is its decimal digits.
\<close>

function shortest_from :: "nat \<Rightarrow> nat \<Rightarrow> nat \<Rightarrow> nat" where
  "shortest_from x nd k =
     (if nd \<le> k then x
      else let p = 10 ^ (nd - k); lo = (x div p) * p; hi = lo + p
           in if to_number lo = x \<and> to_number hi = x then
                (if x - lo < hi - x \<or> (x - lo = hi - x \<and> even (x div p)) then lo else hi)
              else if to_number lo = x then lo
              else if to_number hi = x then hi
              else shortest_from x nd (k + 1))"
  by pat_completeness auto
termination
  by (relation "measure (\<lambda>(x, nd, k). nd - k)") auto

definition exponent_text :: "jsstring \<Rightarrow> jsstring" where
  "exponent_text ds =
     (let sig = rev (dropWhile (\<lambda>c. c = 0x30) (rev ds))
      in hd sig # (if tl sig = [] then [] else 0x2E # tl sig) @ [0x65, 0x2B] @ decimal (length ds - 1))"

definition show_nat :: "nat \<Rightarrow> jsstring" where
  "show_nat n =
     (if n < 2 ^ 53 then decimal n
      else let x = to_number n in
           if 2 ^ 1024 \<le> x then js ''Infinity''
           else let ds = decimal (shortest_from x (length (decimal x)) 1)
                in if length ds \<le> 21 then ds else exponent_text ds)"

definition show_int :: "int \<Rightarrow> jsstring" where
  "show_int i = (if i < 0 then 0x2D # show_nat (nat (- i)) else show_nat (nat i))"

section \<open>The roster model\<close>

text \<open>
  The reserved entry \<^verbatim>\<open>'__ANON__'\<close> and the mask \<^verbatim>\<open>'***'\<close> printed for it.
\<close>

definition ANON :: jsstring where
  "ANON = js ''__ANON__''"

definition MASK :: jsstring where
  "MASK = js ''***''"

text \<open>
  \<^verbatim>\<open>scheduleTime\<close> is read through its truthiness and through \<^verbatim>\<open>Number(...)\<close>.
  \<open>SNone\<close> is \<^verbatim>\<open>null\<close> or a deleted field, \<open>SNum t\<close> the number \<open>t\<close> (falsy when
  \<open>t = 0\<close>), \<open>SOther\<close> a truthy value whose \<^verbatim>\<open>Number(...)\<close> is \<^verbatim>\<open>NaN\<close>.
\<close>

datatype sched_val = SNone | SNum int | SOther

record roster_section =
  sec_title :: jsstring
  limit :: int
  backupLimit :: int
  label :: jsstring
  list :: "jsstring list"

record game =
  title :: jsstring
  gnote :: jsstring
  active :: bool
  startTime :: int
  lastActiveTime :: int
  scheduleTime :: sched_val
  scheduleInput :: "jsstring option"
  anonymous :: "jsstring list"
  anonymousCount :: int
  sections :: "roster_section list"

text \<open>
  The registry \<^verbatim>\<open>games\<close>: an object keyed by conversation id. The keys are kept in
  insertion order, which is the order \<^verbatim>\<open>Object.keys\<close> gives for the ids of the chat
  platform (none of them is an array index). \<^verbatim>\<open>games[gid]\<close> is \<open>map_of games gid\<close>,
  an assignment \<^verbatim>\<open>games[gid] = g\<close> and a mutation of the object \<^verbatim>\<open>games[gid]\<close> are
  \<open>AList.update gid g games\<close> (an existing key keeps its place, a new one goes last),
  \<^verbatim>\<open>delete games[gid]\<close> is \<open>AList.delete gid games\<close>.
\<close>

type_synonym registry = "(jsstring \<times> game) list"

section \<open>Rendering: \<^verbatim>\<open>sendList\<close>\<close>

text \<open>
  \<^verbatim>\<open>(name === '__ANON__') || (g.anonymous || []).includes(name)\<close>.
\<close>

definition isAnon :: "game \<Rightarrow> jsstring \<Rightarrow> bool" where
  "isAnon g name = (name = ANON \<or> name \<in> set (anonymous g))"

text \<open>
  The same test on \<^verbatim>\<open>sec.list[i]\<close>, which is \<^verbatim>\<open>undefined\<close> past the end of the list,
  and \<^verbatim>\<open>undefined\<close> is neither the placeholder nor a member of \<^verbatim>\<open>g.anonymous\<close>.
\<close>

definition isAnonAt :: "game \<Rightarrow> jsstring list \<Rightarrow> nat \<Rightarrow> bool" where
  "isAnonAt g l i = (if i < length l then isAnon g (l ! i) else False)"

text \<open>
  The body of the first loop of \<^verbatim>\<open>sendList\<close> at index \<open>i\<close>: what it appends to
  \<^verbatim>\<open>msg\<close> (nothing, or one line).
\<close>

definition confirmed_step :: "game \<Rightarrow> roster_section \<Rightarrow> nat \<Rightarrow> jsstring list" where
  "confirmed_step g sec i =
     (if i < length (list sec) then
        (if isAnon g (list sec ! i) \<and> isAnonAt g (list sec) (i + 1) then []
         else [label sec @ show_nat (i + 1) @ js ''. '' @
               (if isAnon g (list sec ! i) then MASK else list sec ! i) @ [LF]])
      else if int i = limit sec - 1 then [label sec @ show_nat (i + 1) @ js ''. '' @ [LF]]
      else if i = length (list sec) then [js ''..'' @ [LF]]
      else [])"

text \<open>\<^verbatim>\<open>for (let i = 0; i < sec.limit; i++)\<close>, from index \<open>i\<close> on.\<close>

function confirmed_loop :: "game \<Rightarrow> roster_section \<Rightarrow> nat \<Rightarrow> jsstring list" where
  "confirmed_loop g sec i =
     (if int i < limit sec then confirmed_step g sec i @ confirmed_loop g sec (i + 1) else [])"
  by pat_completeness auto
termination
  by (relation "measure (\<lambda>(g, sec, i). nat (limit sec) - i)") auto

text \<open>
  The body of the waitlist loop at index \<open>i\<close>. The index starts at \<^verbatim>\<open>sec.limit\<close>, so it
  is negative when the limit is; \<^verbatim>\<open>sec.list[i]\<close> is then \<^verbatim>\<open>undefined\<close>, which the
  template prints as the word \<^verbatim>\<open>undefined\<close>. Only the names of \<^verbatim>\<open>g.anonymous\<close> are
  masked here.
\<close>

definition waitlist_step :: "game \<Rightarrow> roster_section \<Rightarrow> int \<Rightarrow> jsstring list" where
  "waitlist_step g sec i =
     (if i < limit sec + backupLimit sec then
        [[0x5019, 0x88DC] @ show_int (i - limit sec + 1) @ js ''. '' @
         (if i < 0 then js ''undefined''
          else if list sec ! nat i \<in> set (anonymous g) then MASK
          else list sec ! nat i) @ [LF]]
      else [])"

text \<open>\<^verbatim>\<open>for (let i = sec.limit; i < sec.list.length; i++)\<close>, from index \<open>i\<close> on.\<close>

function waitlist_loop :: "game \<Rightarrow> roster_section \<Rightarrow> int \<Rightarrow> jsstring list" where
  "waitlist_loop g sec i =
     (if i < int (length (list sec)) then waitlist_step g sec i @ waitlist_loop g sec (i + 1)
      else [])"
  by pat_completeness auto
termination
  by (relation "measure (\<lambda>(g, sec, i). nat (int (length (list sec)) - i))") auto

text \<open>
  The waitlist block of one section: the header line (\<open>---\<close>, the two code units of the word for the waitlist, \<open>---\<close>) and the loop,
  when the list has reached the limit.
\<close>

definition waitlist_block :: "game \<Rightarrow> roster_section \<Rightarrow> jsstring list" where
  "waitlist_block g sec =
     (if int (length (list sec)) \<ge> limit sec
      then (js ''--- '' @ [0x5019, 0x88DC] @ js '' ---'' @ [LF]) # waitlist_loop g sec (limit sec)
      else [])"

text \<open>
  Everything one pass of \<^verbatim>\<open>g.sections.forEach\<close> appends to \<^verbatim>\<open>msg\<close>, as the list of
  the appended pieces: the section header, the confirmed lines, the waitlist block.
\<close>

definition render_section :: "game \<Rightarrow> roster_section \<Rightarrow> jsstring list" where
  "render_section g sec =
     ([LF, 0x3010] @ sec_title sec @ [0x3011, LF]) # confirmed_loop g sec 0 @ waitlist_block g sec"

text \<open>
  The text of the message \<^verbatim>\<open>sendList\<close> sends for the game \<open>g\<close>:
  \<^verbatim>\<open>msg.trim()\<close>.
\<close>

definition roster_text :: "jsstring \<Rightarrow> game \<Rightarrow> jsstring" where
  "roster_text prefix g =
     trim (prefix @ [LF] @ title g @ [LF] @
           concat (concat (map (render_section g) (sections g))) @
           (if gnote g \<noteq> [] then [LF, 0xD83D, 0xDCDD, 0x20] @ gnote g else []))"

section \<open>The list operations\<close>

text \<open>
  The helpers below are called by \<^verbatim>\<open>handleEvent\<close> after it has checked that
  \<^verbatim>\<open>games[gid]\<close> exists. They mutate that object in place; here they take the game and
  return it changed, and the caller stores it back under \<open>gid\<close>.
\<close>

text \<open>
  \<^verbatim>\<open>addToList(gid, idx, name)\<close>: nothing without a section \<open>idx\<close>; the placeholder
  is always pushed, another name only when the list does not include it.
\<close>

definition addToList :: "nat \<Rightarrow> jsstring \<Rightarrow> game \<Rightarrow> game" where
  "addToList idx name g =
     (if idx < length (sections g) then
        (if name = ANON then
           g\<lparr>sections := (sections g)[idx := (sections g ! idx)\<lparr>list := list (sections g ! idx) @ [name]\<rparr>]\<rparr>
         else if name \<notin> set (list (sections g ! idx)) then
           g\<lparr>sections := (sections g)[idx := (sections g ! idx)\<lparr>list := list (sections g ! idx) @ [name]\<rparr>]\<rparr>
         else g)
      else g)"

text \<open>
  \<^verbatim>\<open>removeFromList(gid, name)\<close>: in every section, \<^verbatim>\<open>indexOf\<close> finds the first
  occurrence of the name and \<^verbatim>\<open>splice(i, 1)\<close> removes that one entry.
\<close>

definition removeFromList :: "jsstring \<Rightarrow> game \<Rightarrow> game" where
  "removeFromList name g = g\<lparr>sections := map (\<lambda>s. s\<lparr>list := remove1 name (list s)\<rparr>) (sections g)\<rparr>"

text \<open>
  The loop of \<^verbatim>\<open>removeAnon\<close>, \<^verbatim>\<open>for (let i = s.list.length - 1; i >= 0; i--)\<close>; the
  argument \<open>n\<close> is \<open>i + 1\<close>.
\<close>

fun removeAnon_loop :: "jsstring list \<Rightarrow> nat \<Rightarrow> jsstring list" where
  "removeAnon_loop l 0 = l"
| "removeAnon_loop l (Suc i) =
     (if l ! i = ANON then take i l @ drop (Suc i) l else removeAnon_loop l i)"

definition removeAnon :: "game \<Rightarrow> game" where
  "removeAnon g =
     (case sections g of
        [] \<Rightarrow> g
      | s # rest \<Rightarrow> g\<lparr>sections := s\<lparr>list := removeAnon_loop (list s) (length (list s))\<rparr> # rest\<rparr>)"

definition touchGame :: "int \<Rightarrow> game \<Rightarrow> game" where
  "touchGame now g = g\<lparr>lastActiveTime := now\<rparr>"

section \<open>Replies\<close>

text \<open>
  What a handler sends back. \<open>Rejected\<close> stands for the short error texts of the source:
  \<open>NoGame\<close> and \<open>Ended\<close> for the two "no game in progress" and "game has ended" texts,
  \<open>NotYetOpen t\<close> for the text that names the scheduled opening time \<open>t\<close>,
  \<open>Duplicate\<close> for the duplicate-name text of create, join and bulk list,
  \<open>DuplicateInList\<close> for the one of modify, \<open>NothingToModify\<close> for a modify command
  without a field. \<open>Roster\<close> carries the text \<^verbatim>\<open>sendList\<close> builds. \<open>ScheduleSet\<close>
  is the confirmation of a create command with a time; it carries the roster text that
  was pushed at once when that time had already passed. \<open>NoReply\<close> is a handler that
  returns without sending, which is also what the \<^verbatim>\<open>catch\<close> around the handler
  leaves after a \<^verbatim>\<open>TypeError\<close>.
\<close>

datatype reject = NoGame | Ended | NotYetOpen int | Duplicate | DuplicateInList | NothingToModify

datatype reply =
    NoReply
  | Rejected reject
  | Roster jsstring
  | ScheduleSet "jsstring option"
  | ListCleared
  | GameEnded
  | GameDeleted

text \<open>
  The gate of join and leave:
  \<^verbatim>\<open>games[gid].scheduleTime && Number(games[gid].scheduleTime) > Date.now()\<close>.
\<close>

definition pending_schedule :: "int \<Rightarrow> game \<Rightarrow> int option" where
  "pending_schedule now g =
     (case scheduleTime g of
        SNum t \<Rightarrow> (if t \<noteq> 0 \<and> t > now then Some t else None)
      | _ \<Rightarrow> None)"

section \<open>The caller's own name\<close>

text \<open>
  What the name caches and the platform hold for the caller when a handler runs:
  \<open>cacheName\<close> is the name of a fresh entry of \<^verbatim>\<open>userNameCache\<close>, \<open>mapName\<close> the
  entry of \<^verbatim>\<open>uidToNameMap\<close>, \<open>apiName\<close> what \<^verbatim>\<open>getName\<close> returns. The empty string
  and \<^verbatim>\<open>null\<close> are both falsy and are both \<open>[]\<close> here.
\<close>

record caller =
  cacheName :: "jsstring option"
  mapName :: "jsstring option"
  apiName :: jsstring

definition self_name_join :: "caller \<Rightarrow> jsstring list \<Rightarrow> jsstring" where
  "self_name_join who currentList =
     (let userName = (case cacheName who of Some n \<Rightarrow> n | None \<Rightarrow> []) in
      if userName = [] then
        (case mapName who of
           Some m \<Rightarrow> (if m \<in> set currentList then m else apiName who)
         | None \<Rightarrow> apiName who)
      else userName)"

text \<open>
  The leave handler reads \<^verbatim>\<open>games[gid].sections[0].list\<close> only in the branch that
  found the caller in \<^verbatim>\<open>uidToNameMap\<close>; without a section 0 that read throws
  (\<open>None\<close>).
\<close>

definition self_name_leave :: "caller \<Rightarrow> game \<Rightarrow> jsstring option" where
  "self_name_leave who g =
     (let userName = (case cacheName who of Some n \<Rightarrow> n | None \<Rightarrow> []) in
      if userName = [] then
        (case mapName who of
           Some m \<Rightarrow>
             (case sections g of
                [] \<Rightarrow> None
              | s # _ \<Rightarrow>
                  (if m \<in> set (list s) then Some (if m = [] then apiName who else m)
                   else Some (apiName who)))
         | None \<Rightarrow> Some (apiName who))
      else Some userName)"

section \<open>Join and leave\<close>

abbreviation ANON_WORD :: jsstring where "ANON_WORD \<equiv> [0x533F, 0x540D]"

text \<open>
  \<^verbatim>\<open>namesToAdd\<close> of the join handler, from the count and the content of the command:
  placeholders when the content holds the word for "anonymous", the content split at
  \<^verbatim>\<open>/[\s,]+/\<close> otherwise, the caller's own name for a bare \<^verbatim>\<open>+1\<close>.
\<close>

definition join_names :: "caller \<Rightarrow> nat \<Rightarrow> jsstring \<Rightarrow> jsstring list \<Rightarrow> jsstring list" where
  "join_names who count content currentList =
     (if content \<noteq> [] \<and> has_infix ANON_WORD content then replicate count ANON
      else if content \<noteq> [] then split_nonempty (\<lambda>c. is_space c \<or> c = COMMA) content
      else if count = 1 then [self_name_join who currentList]
      else [])"

text \<open>
  The join branch of \<^verbatim>\<open>handleEvent\<close>, from \<^verbatim>\<open>if (addMatch)\<close> on. \<open>now\<close> is
  \<^verbatim>\<open>Date.now()\<close>. The prefix of the roster reply is empty.
\<close>

definition handle_join :: "int \<Rightarrow> caller \<Rightarrow> jsstring \<Rightarrow> nat \<Rightarrow> jsstring \<Rightarrow> registry \<Rightarrow> reply \<times> registry" where
  "handle_join now who gid count content games =
     (case map_of games gid of
        None \<Rightarrow> (Rejected NoGame, games)
      | Some g \<Rightarrow>
          if \<not> active g then (Rejected Ended, games)
          else
            (case pending_schedule now g of
               Some t \<Rightarrow> (Rejected (NotYetOpen t), games)
             | None \<Rightarrow>
                 (case sections g of
                    [] \<Rightarrow> (NoReply, games)
                  | s # _ \<Rightarrow>
                      let currentList = list s;
                          namesToAdd = join_names who count content currentList;
                          realNames = filter (\<lambda>n. n \<noteq> ANON) namesToAdd
                      in if namesToAdd \<noteq> [] \<and>
                            (list_ex (\<lambda>n. n \<in> set currentList) realNames \<or> \<not> distinct realNames)
                         then (Rejected Duplicate, games)
                         else
                           let g' = touchGame now (fold (addToList 0) namesToAdd g)
                           in (Roster (roster_text [] g'), AList.update gid g' games))))"

text \<open>
  The leave branch, from \<^verbatim>\<open>if (removeMatch)\<close> on. The leave handler does not call
  \<^verbatim>\<open>touchGame\<close>.
\<close>

definition handle_leave :: "int \<Rightarrow> caller \<Rightarrow> jsstring \<Rightarrow> jsstring \<Rightarrow> registry \<Rightarrow> reply \<times> registry" where
  "handle_leave now who gid removeName games =
     (case map_of games gid of
        None \<Rightarrow> (Rejected NoGame, games)
      | Some g \<Rightarrow>
          if \<not> active g then (Rejected Ended, games)
          else
            (case pending_schedule now g of
               Some t \<Rightarrow> (Rejected (NotYetOpen t), games)
             | None \<Rightarrow>
                 if removeName = [] then
                   (case self_name_leave who g of
                      None \<Rightarrow> (NoReply, games)
                    | Some name \<Rightarrow>
                        let g' = removeFromList name g
                        in (Roster (roster_text [] g'), AList.update gid g' games))
                 else if has_infix ANON_WORD removeName then
                   let g' = removeAnon g
                   in (Roster (roster_text [] g'), AList.update gid g' games)
                 else
                   let g' = removeFromList removeName g
                   in (Roster (roster_text [] g'), AList.update gid g' games)))"

section \<open>Bulk list\<close>

text \<open>
  The branch \<^verbatim>\<open>text.startsWith('...')\<close> of the list command; \<open>input\<close> is the trimmed
  rest of the text. An empty rest or \<^verbatim>\<open>#\<close> is the query. The names are the pieces of
  \<^verbatim>\<open>input.split(/\s+/)\<close>; here the duplicate test covers every name, the placeholder
  token too. This branch calls neither the gate nor \<^verbatim>\<open>touchGame\<close>.
\<close>

definition handle_bulk :: "jsstring \<Rightarrow> jsstring \<Rightarrow> registry \<Rightarrow> reply \<times> registry" where
  "handle_bulk gid input games =
     (if input = [] \<or> input = js ''#'' then
        (case map_of games gid of
           None \<Rightarrow> (Rejected NoGame, games)
         | Some g \<Rightarrow> (Roster (roster_text [] g), games))
      else
        (case map_of games gid of
           None \<Rightarrow> (Rejected NoGame, games)
         | Some g \<Rightarrow>
             if \<not> active g then (Rejected NoGame, games)
             else
               (case sections g of
                  [] \<Rightarrow> (NoReply, games)
                | s # _ \<Rightarrow>
                    let namesToAdd = split_nonempty is_space input;
                        currentList = list s
                    in if list_ex (\<lambda>n. n \<in> set currentList) namesToAdd \<or> \<not> distinct namesToAdd
                       then (Rejected Duplicate, games)
                       else
                         let g' = fold (addToList 0) namesToAdd g
                         in (Roster (roster_text [] g'), AList.update gid g' games))))"

section \<open>Create, modify, configure, clear, end\<close>

text \<open>
  The create, modify and configure branches read their fields out of the text with
  regular expressions. The handlers below start after that extraction: their arguments
  are the values the extraction produced, and every statement about them holds for any
  such values.
\<close>

text \<open>
  The anonymous field of a create command: absent, a number of placeholders, or a list
  of display names (the older form).
\<close>

datatype anon_field = NoAnonField | AnonCount nat | AnonNames "jsstring list"

abbreviation SECTION0_TITLE :: jsstring where
  "SECTION0_TITLE \<equiv> [0x5831, 0x540D, 0x540D, 0x55AE]"

abbreviation SECTION_WORD :: jsstring where
  "SECTION_WORD \<equiv> [0x5340, 0x6BB5]"

abbreviation REMINDER :: jsstring where
  "REMINDER \<equiv> [0x23F0, 0x20, 0x5B9A, 0x6642, 0x63D0, 0x9192]"

abbreviation CREATED :: jsstring where
  "CREATED \<equiv> [0xD83D, 0xDE80, 0x20, 0x63A5, 0x9F8D, 0x8A2D, 0x5B9A, 0x6210, 0x529F, 0xFF01]"

abbreviation UPDATED :: jsstring where
  "UPDATED \<equiv> [0x270F, 0xFE0F, 0x20, 0x63A5, 0x9F8D, 0x5DF2, 0x66F4, 0x65B0]"

text \<open>
  The create branch. \<open>ttl\<close>, \<open>lim\<close> and \<open>bk\<close> are the title and the two capacities
  (the defaults already applied), \<open>names\<close> the entries of the name-list field, \<open>anon\<close>
  the anonymous field, \<open>sched\<close> and \<open>schedInput\<close> the parsed time and its text,
  \<open>welcome\<close> the welcome prefix of a first use.
\<close>

definition handle_create ::
  "int \<Rightarrow> jsstring \<Rightarrow> jsstring \<Rightarrow> nat \<Rightarrow> nat \<Rightarrow> jsstring list \<Rightarrow> anon_field \<Rightarrow>
   int option \<Rightarrow> jsstring option \<Rightarrow> jsstring \<Rightarrow> registry \<Rightarrow> reply \<times> registry" where
  "handle_create now gid ttl lim bk names anon sched schedInput welcome games =
     (let initialList = names @ (case anon of NoAnonField \<Rightarrow> [] | AnonCount n \<Rightarrow> replicate n ANON
                                  | AnonNames ns \<Rightarrow> ns);
          nonAnonList = filter (\<lambda>n. n \<noteq> ANON) initialList
      in if \<not> distinct nonAnonList then (Rejected Duplicate, games)
         else
           let g = \<lparr>title = ttl, gnote = [], active = True, startTime = now, lastActiveTime = now,
                    scheduleTime = (case sched of None \<Rightarrow> SNone | Some t \<Rightarrow> SNum t),
                    scheduleInput = schedInput,
                    anonymous = (case anon of AnonNames ns \<Rightarrow> ns | _ \<Rightarrow> []),
                    anonymousCount = (case anon of AnonCount n \<Rightarrow> int n | _ \<Rightarrow> 0),
                    sections = [\<lparr>sec_title = SECTION0_TITLE, limit = int lim, backupLimit = int bk,
                                 label = [], list = initialList\<rparr>]\<rparr>;
               games' = AList.update gid g games
           in (case sched of
                 None \<Rightarrow> (Roster (roster_text (welcome @ CREATED) g), games')
               | Some t \<Rightarrow>
                   if t = 0 then (Roster (roster_text (welcome @ CREATED) g), games')
                   else (ScheduleSet (if t \<le> now then Some (roster_text REMINDER g) else None), games')))"

text \<open>
  The prefix of the reply of a modify command: the second line is added when the new
  limit is below the old one and below the length of the list.
\<close>

definition update_msg :: "int \<Rightarrow> nat option \<Rightarrow> nat \<Rightarrow> jsstring" where
  "update_msg oldLimit newLimit len =
     (case newLimit of
        None \<Rightarrow> UPDATED
      | Some n \<Rightarrow>
          if int n < oldLimit \<and> len > n then
            UPDATED @ [LF, 0xD83D, 0xDCCB, 0x20, 0x4EBA, 0x6578, 0x5DF2, 0x5F9E, 0x20] @
            show_int oldLimit @ [0x20, 0x8ABF, 0x6574, 0x70BA, 0x20] @ show_nat n @
            [0xFF0C, 0x8D85, 0x51FA, 0x7684, 0x4EBA, 0x54E1, 0x5C07, 0x986F, 0x793A, 0x70BA, 0x5019, 0x88DC]
          else UPDATED)"

text \<open>
  The modify branch; each field is \<open>None\<close> when the text does not hold it. The title
  and the capacities are written before the new list is checked, so a rejected list
  leaves them changed in memory (untouched and unsaved). The length in the reply prefix
  is the length of the list the section had when the command arrived.
\<close>

definition handle_modify ::
  "int \<Rightarrow> jsstring \<Rightarrow> jsstring option \<Rightarrow> nat option \<Rightarrow> nat option \<Rightarrow> jsstring list option \<Rightarrow>
   registry \<Rightarrow> reply \<times> registry" where
  "handle_modify now gid newTitle newLimit newBackup newList games =
     (case map_of games gid of
        None \<Rightarrow> (Rejected NoGame, games)
      | Some g \<Rightarrow>
          if \<not> active g then (Rejected NoGame, games)
          else
            (case sections g of
               [] \<Rightarrow> (NoReply, games)
             | s # rest \<Rightarrow>
                 let g1 = (case newTitle of None \<Rightarrow> g | Some t \<Rightarrow> g\<lparr>title := t\<rparr>);
                     s1 = (case newLimit of None \<Rightarrow> s
                           | Some n \<Rightarrow> if n > 0 then s\<lparr>limit := int n\<rparr> else s);
                     s2 = (case newBackup of None \<Rightarrow> s1 | Some b \<Rightarrow> s1\<lparr>backupLimit := int b\<rparr>);
                     hasChanges = (newTitle \<noteq> None \<or> (case newLimit of None \<Rightarrow> False | Some n \<Rightarrow> n > 0)
                                   \<or> newBackup \<noteq> None \<or> newList \<noteq> None)
                 in (case newList of
                       Some l \<Rightarrow>
                         if \<not> distinct (filter (\<lambda>n. n \<noteq> ANON) l)
                         then (Rejected DuplicateInList, AList.update gid (g1\<lparr>sections := s2 # rest\<rparr>) games)
                         else
                           let g' = touchGame now (g1\<lparr>sections := s2\<lparr>list := l\<rparr> # rest\<rparr>)
                           in (Roster (roster_text (update_msg (limit s) newLimit (length (list s))) g'),
                               AList.update gid g' games)
                     | None \<Rightarrow>
                         if \<not> hasChanges then (Rejected NothingToModify, games)
                         else
                           let g' = touchGame now (g1\<lparr>sections := s2 # rest\<rparr>)
                           in (Roster (roster_text (update_msg (limit s) newLimit (length (list s))) g'),
                               AList.update gid g' games))))"

text \<open>
  The configure branch writes \<^verbatim>\<open>games[gid].sections[idx]\<close> for \<open>idx\<close> 0 or 1. The
  arguments are the values of the braces: the title and the label (\<open>[]\<close> when absent or
  empty), and what \<^verbatim>\<open>parseInt\<close> gives for the two numbers (\<open>None\<close> for \<^verbatim>\<open>NaN\<close>).
  Writing index 1 of an empty array leaves a hole at index 0; the section arrays of this
  model have no holes, and that one case is \<open>None\<close>. Without a game the write throws.
\<close>

definition handle_config ::
  "int \<Rightarrow> jsstring \<Rightarrow> nat \<Rightarrow> jsstring \<Rightarrow> int option \<Rightarrow> int option \<Rightarrow> jsstring \<Rightarrow>
   registry \<Rightarrow> (reply \<times> registry) option" where
  "handle_config now gid idx p0 p1 p2 p3 games =
     (case map_of games gid of
        None \<Rightarrow> Some (NoReply, games)
      | Some g \<Rightarrow>
          let sec = \<lparr>sec_title = (if p0 = [] then SECTION_WORD @ show_nat (idx + 1) else p0),
                     limit = (case p1 of None \<Rightarrow> 10 | Some n \<Rightarrow> if n = 0 then 10 else n),
                     backupLimit = (case p2 of None \<Rightarrow> 0 | Some n \<Rightarrow> n),
                     label = p3,
                     list = (if idx < length (sections g) then list (sections g ! idx) else [])\<rparr>
          in if idx < length (sections g) then
               let g' = touchGame now (g\<lparr>sections := (sections g)[idx := sec]\<rparr>)
               in Some (Roster (roster_text ([0x2699, 0xFE0F, 0x20] @ SECTION_WORD @ show_nat (idx + 1) @
                                             [0x20, 0x66F4, 0x65B0, 0x6210, 0x529F]) g'),
                        AList.update gid g' games)
             else if idx = length (sections g) then
               let g' = touchGame now (g\<lparr>sections := sections g @ [sec]\<rparr>)
               in Some (Roster (roster_text ([0x2699, 0xFE0F, 0x20] @ SECTION_WORD @ show_nat (idx + 1) @
                                             [0x20, 0x66F4, 0x65B0, 0x6210, 0x529F]) g'),
                        AList.update gid g' games)
             else None)"

text \<open>The clear branch: every section's list becomes empty. Without a game it throws.\<close>

definition handle_clear :: "int \<Rightarrow> jsstring \<Rightarrow> registry \<Rightarrow> reply \<times> registry" where
  "handle_clear now gid games =
     (case map_of games gid of
        None \<Rightarrow> (NoReply, games)
      | Some g \<Rightarrow>
          let g' = touchGame now (g\<lparr>sections := map (\<lambda>s. s\<lparr>list := []\<rparr>) (sections g)\<rparr>)
          in (ListCleared, AList.update gid g' games))"

text \<open>The end and the delete branches: \<^verbatim>\<open>deleteGame(gid)\<close>.\<close>

definition handle_end :: "jsstring \<Rightarrow> registry \<Rightarrow> reply \<times> registry" where
  "handle_end gid games = (GameEnded, AList.delete gid games)"

definition handle_delete :: "jsstring \<Rightarrow> registry \<Rightarrow> reply \<times> registry" where
  "handle_delete gid games = (GameDeleted, AList.delete gid games)"

section \<open>The sigil of join and leave\<close>

abbreviation PLUS :: jschar where "PLUS \<equiv> 0x2B"
abbreviation MINUS :: jschar where "MINUS \<equiv> 0x2D"

definition is_digit19 :: "jschar \<Rightarrow> bool" where
  "is_digit19 c = (0x31 \<le> c \<and> c \<le> 0x39)"

definition digit_value :: "jschar \<Rightarrow> nat" where
  "digit_value c = unat c - 48"

text \<open>
  \<^verbatim>\<open>text.match(/^\+([1-9])(\s*)(.*)/)\<close>, and the same with \<^verbatim>\<open>-\<close>: the sigil and a
  digit 1 to 9 at the start; group 2 takes all the white space that follows, group 3 the
  characters up to the first line terminator. The result is the digit and group 3.
\<close>

definition sigil_start :: "jschar \<Rightarrow> jsstring \<Rightarrow> (nat \<times> jsstring) option" where
  "sigil_start sig text =
     (case text of
        c # d # rest \<Rightarrow>
          if c = sig \<and> is_digit19 d
          then Some (digit_value d, takeWhile (\<lambda>x. \<not> is_line_terminator x) (dropWhile is_space rest))
          else None
      | _ \<Rightarrow> None)"

text \<open>
  \<^verbatim>\<open>text.match(/^(.+?)(\s*)\+([1-9])$/)\<close>, and the same with \<^verbatim>\<open>-\<close>: the text ends
  with the sigil and a digit 1 to 9; of what stands before, group 1 is the shortest
  non-empty prefix without a line terminator that leaves only white space for group 2.
  The result is the digit and group 1.
\<close>

definition sigil_end :: "jschar \<Rightarrow> jsstring \<Rightarrow> (nat \<times> jsstring) option" where
  "sigil_end sig text =
     (if length text \<ge> 2 \<and> text ! (length text - 2) = sig \<and> is_digit19 (text ! (length text - 1)) then
        (let p = take (length text - 2) text in
         case find (\<lambda>k. \<not> list_ex is_line_terminator (take k p) \<and> list_all is_space (drop k p))
                   [1..<length p + 1] of
           None \<Rightarrow> None
         | Some k \<Rightarrow> Some (digit_value (text ! (length text - 1)), take k p))
      else None)"

text \<open>
  The join sigil: \<^verbatim>\<open>addMatch\<close> as the count and the content, \<open>None\<close> for
  \<^verbatim>\<open>null\<close>. \<open>text\<close> is the trimmed text of the message.
\<close>

definition parse_join :: "jsstring \<Rightarrow> (nat \<times> jsstring) option" where
  "parse_join text =
     (case sigil_start PLUS text of
        Some (count, g3) \<Rightarrow> Some (count, trim g3)
      | None \<Rightarrow>
          (case sigil_end PLUS text of
             Some (count, g1) \<Rightarrow> (if trim g1 \<noteq> [] then Some (count, trim g1) else None)
           | None \<Rightarrow> None))"

text \<open>The leave sigil: \<^verbatim>\<open>removeName\<close> when \<^verbatim>\<open>removeMatch\<close> is set.\<close>

definition parse_leave :: "jsstring \<Rightarrow> jsstring option" where
  "parse_leave text =
     (case sigil_start MINUS text of
        Some (count, g3) \<Rightarrow> Some (trim g3)
      | None \<Rightarrow>
          (case sigil_end MINUS text of
             Some (count, g1) \<Rightarrow> (if trim g1 \<noteq> [] then Some (trim g1) else None)
           | None \<Rightarrow> None))"

section \<open>The scheduler: \<^verbatim>\<open>checkSchedules\<close>\<close>





section \<open>Example values\<close>

text \<open>Concrete values at which the theorems below are instantiated.\<close>

definition ex_who :: caller where
  "ex_who = \<lparr>cacheName = None, mapName = None, apiName = js ''Zed''\<rparr>"

definition ex_section :: "jsstring list \<Rightarrow> roster_section" where
  "ex_section l = \<lparr>sec_title = js ''S'', limit = 3, backupLimit = 2, label = [], list = l\<rparr>"

definition ex_game :: "roster_section list \<Rightarrow> game" where
  "ex_game ss = \<lparr>title = js ''T'', gnote = [], active = True, startTime = 0, lastActiveTime = 0,
                 scheduleTime = SNone, scheduleInput = None, anonymous = [], anonymousCount = 0,
                 sections = ss\<rparr>"


section \<open>The flattened snapshot: \<^verbatim>\<open>saveCurrentListSnapshot\<close>\<close>

text \<open>\<^verbatim>\<open>xs.join(sep)\<close>.\<close>

fun join_with :: "jsstring \<Rightarrow> jsstring list \<Rightarrow> jsstring" where
  "join_with sep [] = []"
| "join_with sep [x] = x"
| "join_with sep (x # y # ys) = x @ sep @ join_with sep (y # ys)"

definition CSV_HEADER :: jsstring where
  "CSV_HEADER = js ''gid,sectionIdx,name,limit,backupLimit''"

text \<open>
  The five fields of the row of one name: the id, \<^verbatim>\<open>String(sectionIdx)\<close>, the name,
  \<^verbatim>\<open>String(section.limit || '')\<close> (empty for the limit 0) and
  \<^verbatim>\<open>String(section.backupLimit ?? '')\<close>.
\<close>

definition snapshot_fields :: "jsstring \<Rightarrow> nat \<Rightarrow> roster_section \<Rightarrow> jsstring \<Rightarrow> jsstring list" where
  "snapshot_fields gid idx sec name =
     [gid, show_nat idx, name,
      (if limit sec = 0 then [] else show_int (limit sec)),
      show_int (backupLimit sec)]"

definition snapshot_row :: "jsstring \<Rightarrow> nat \<Rightarrow> roster_section \<Rightarrow> jsstring \<Rightarrow> jsstring" where
  "snapshot_row gid idx sec name = join_with [COMMA] (map csvEscape (snapshot_fields gid idx sec name))"

text \<open>
  The rows of one section (\<^verbatim>\<open>section.list.forEach\<close>, the placeholder skipped), of one
  game (\<^verbatim>\<open>g.sections.forEach\<close>, from section index \<open>idx\<close> on) and of the registry
  (\<^verbatim>\<open>gids.forEach\<close>).
\<close>

definition section_rows :: "jsstring \<Rightarrow> nat \<Rightarrow> roster_section \<Rightarrow> jsstring list" where
  "section_rows gid idx sec = map (snapshot_row gid idx sec) (filter (\<lambda>name. name \<noteq> ANON) (list sec))"

fun game_rows :: "jsstring \<Rightarrow> nat \<Rightarrow> roster_section list \<Rightarrow> jsstring list" where
  "game_rows gid idx [] = []"
| "game_rows gid idx (sec # secs) = section_rows gid idx sec @ game_rows gid (idx + 1) secs"

fun registry_rows :: "registry \<Rightarrow> jsstring list" where
  "registry_rows [] = []"
| "registry_rows ((gid, g) # games) = game_rows gid 0 (sections g) @ registry_rows games"

text \<open>\<^verbatim>\<open>csvContent\<close>, the text \<^verbatim>\<open>saveCurrentListSnapshot\<close> writes.\<close>

definition snapshot_csv :: "registry \<Rightarrow> jsstring" where
  "snapshot_csv games =
     CSV_HEADER @ [LF] @
     (if registry_rows games \<noteq> [] then join_with [LF] (registry_rows games) @ [LF] else [])"

text \<open>
  The store. The text is written as UTF-8 (\<^verbatim>\<open>fs.promises.writeFile(..., 'utf8')\<close>, or
  \<^verbatim>\<open>Buffer.from(content, 'utf8')\<close> on the way to the remote store) and read as UTF-8
  by the process that runs the recovery. A surrogate pair is one character of the file
  and comes back as it was; a surrogate outside a pair has no UTF-8 form, and the writer
  puts the replacement character U+FFFD for it. \<open>utf8_text s\<close> is what is read back of
  \<open>s\<close>.
\<close>

definition is_high_surrogate :: "jschar \<Rightarrow> bool" where
  "is_high_surrogate c = (0xD800 \<le> c \<and> c \<le> 0xDBFF)"

definition is_low_surrogate :: "jschar \<Rightarrow> bool" where
  "is_low_surrogate c = (0xDC00 \<le> c \<and> c \<le> 0xDFFF)"

fun utf8_text :: "jsstring \<Rightarrow> jsstring" where
  "utf8_text [] = []"
| "utf8_text [c] = (if is_high_surrogate c \<or> is_low_surrogate c then [0xFFFD] else [c])"
| "utf8_text (c # d # rest) =
     (if is_high_surrogate c \<and> is_low_surrogate d then c # d # utf8_text rest
      else if is_high_surrogate c \<or> is_low_surrogate c then 0xFFFD # utf8_text (d # rest)
      else c # utf8_text (d # rest))"

section \<open>The recovery: \<^verbatim>\<open>restoreGamesFromCsv\<close>\<close>

text \<open>
  \<^verbatim>\<open>s.split(/\r?\n/)\<close>: a cut at every line feed, which takes a carriage return right
  before it along. \<open>cur\<close> is the piece being read.
\<close>

fun split_lines :: "jsstring \<Rightarrow> jsstring \<Rightarrow> jsstring list" where
  "split_lines cur [] = [cur]"
| "split_lines cur [c] = (if c = LF then [cur, []] else [cur @ [c]])"
| "split_lines cur (c # c2 # rest) =
     (if c = CR \<and> c2 = LF then cur # split_lines [] rest
      else if c = LF then cur # split_lines [] (c2 # rest)
      else split_lines (cur @ [c]) (c2 # rest))"

text \<open>
  \<^verbatim>\<open>toLowerCase\<close> on the letters A to Z; the header words the recovery looks for are
  made of these letters, and other cased characters are left as they are here.
\<close>

definition toLowerCase :: "jsstring \<Rightarrow> jsstring" where
  "toLowerCase s = map (\<lambda>c. if 0x41 \<le> c \<and> c \<le> 0x5A then c + 0x20 else c) s"

text \<open>\<^verbatim>\<open>xs.indexOf(x)\<close>, \<open>None\<close> for \<open>-1\<close>.\<close>

fun index_of :: "'a \<Rightarrow> 'a list \<Rightarrow> nat option" where
  "index_of x [] = None"
| "index_of x (y # ys) = (if x = y then Some 0 else map_option Suc (index_of x ys))"

text \<open>
  \<^verbatim>\<open>parseInt(s, 10)\<close>: leading white space, an optional sign, then the longest run of
  decimal digits, whose value is rounded to a Number. \<open>None\<close> is a result that is not
  finite: \<^verbatim>\<open>NaN\<close>, the result without a digit, and \<^verbatim>\<open>Infinity\<close>, the result from
  \<open>2^1024\<close> on. The recovery, the one caller, tests every result with
  \<^verbatim>\<open>Number.isFinite\<close> and treats the two alike.
\<close>

definition is_digit :: "jschar \<Rightarrow> bool" where
  "is_digit c = (0x30 \<le> c \<and> c \<le> 0x39)"

definition digits_value :: "jsstring \<Rightarrow> nat" where
  "digits_value ds = foldl (\<lambda>a c. 10 * a + (unat c - 48)) 0 ds"

definition parseInt10 :: "jsstring \<Rightarrow> int option" where
  "parseInt10 s =
     (let s1 = dropWhile is_space s;
          neg = (case s1 of [] \<Rightarrow> False | c # cs \<Rightarrow> c = MINUS);
          s2 = (case s1 of [] \<Rightarrow> [] | c # cs \<Rightarrow> if c = MINUS \<or> c = PLUS then cs else s1);
          ds = takeWhile is_digit s2;
          v = to_number (digits_value ds)
      in if ds = [] \<or> 2 ^ 1024 \<le> v then None
         else Some (if neg then - int v else int v))"

text \<open>\<^verbatim>\<open>cols[i] || ''\<close>: the empty string past the end of the row.\<close>

definition col :: "jsstring list \<Rightarrow> nat \<Rightarrow> jsstring" where
  "col cols i = (if i < length cols then cols ! i else [])"

text \<open>
  The recovery keeps two maps of maps, from the conversation id and the section index
  to the list of names (\<^verbatim>\<open>byGid\<close>) and to the capacities seen (\<^verbatim>\<open>metaByGid\<close>). A
  \<^verbatim>\<open>Map\<close> keeps its keys in insertion order and is an association list here. \<open>get2\<close>
  reads \<^verbatim>\<open>m.get(gid).get(idx)\<close>, \<open>ensure2\<close> is the pair of
  \<^verbatim>\<open>if (!m.has(gid)) m.set(gid, new Map())\<close> and
  \<^verbatim>\<open>if (!inner.has(idx)) inner.set(idx, dflt)\<close>, \<open>put2\<close> the mutation of the value
  stored under \<open>gid\<close> and \<open>idx\<close>.
\<close>

type_synonym 'v map2 = "(jsstring \<times> (nat \<times> 'v) list) list"

definition get2 :: "'v map2 \<Rightarrow> jsstring \<Rightarrow> nat \<Rightarrow> 'v option" where
  "get2 m gid idx = (case map_of m gid of None \<Rightarrow> None | Some inner \<Rightarrow> map_of inner idx)"

definition ensure2 :: "'v map2 \<Rightarrow> jsstring \<Rightarrow> nat \<Rightarrow> 'v \<Rightarrow> 'v map2" where
  "ensure2 m gid idx dflt =
     (case map_of m gid of
        None \<Rightarrow> AList.update gid [(idx, dflt)] m
      | Some inner \<Rightarrow>
          (case map_of inner idx of
             None \<Rightarrow> AList.update gid (AList.update idx dflt inner) m
           | Some v \<Rightarrow> m))"

definition put2 :: "'v map2 \<Rightarrow> jsstring \<Rightarrow> nat \<Rightarrow> 'v \<Rightarrow> 'v map2" where
  "put2 m gid idx v =
     (case map_of m gid of
        None \<Rightarrow> m
      | Some inner \<Rightarrow> AList.update gid (AList.update idx v inner) m)"

text \<open>\<^verbatim>\<open>sectionMeta\<close>: the two capacities, each absent until a row sets it.\<close>

record section_meta =
  meta_limit :: "int option"
  meta_backup :: "int option"

text \<open>The positions of the columns in the header row.\<close>

record csv_header =
  idxGid :: nat
  idxSection :: nat
  idxName :: nat
  idxLimit :: "nat option"
  idxBackup :: "nat option"

text \<open>
  \<^verbatim>\<open>Math.max(sectionMeta.limit || 0, raw)\<close> for a row whose number \<open>raw\<close> passes the
  test (\<open>raw > 0\<close> for the limit, \<open>raw >= 0\<close> for the waitlist).
\<close>

definition seen_max :: "int option \<Rightarrow> int \<Rightarrow> int" where
  "seen_max old raw = max (case old of None \<Rightarrow> 0 | Some v \<Rightarrow> v) raw"

text \<open>The body of the loop over the data lines, on the pair of \<^verbatim>\<open>byGid\<close> and \<^verbatim>\<open>metaByGid\<close>.\<close>

definition restore_row ::
  "csv_header \<Rightarrow> jsstring \<Rightarrow> jsstring list map2 \<times> section_meta map2 \<Rightarrow>
   jsstring list map2 \<times> section_meta map2" where
  "restore_row hdr rawLine st =
     (let line = trim rawLine in
      if line = [] then st
      else
        let cols = parseCsvLine line;
            gid = trim (col cols (idxGid hdr));
            name = trim (col cols (idxName hdr));
            sectionIdx = parseInt10 (trim (if col cols (idxSection hdr) = [] then js ''0''
                                           else col cols (idxSection hdr)))
        in if gid = [] \<or> name = [] then st
           else
             let safeSectionIdx = (case sectionIdx of None \<Rightarrow> 0 | Some n \<Rightarrow> if n \<ge> 0 then nat n else 0);
                 byGid = ensure2 (fst st) gid safeSectionIdx [];
                 metaByGid = ensure2 (snd st) gid safeSectionIdx \<lparr>meta_limit = None, meta_backup = None\<rparr>;
                 m0 = (case get2 metaByGid gid safeSectionIdx of
                         None \<Rightarrow> \<lparr>meta_limit = None, meta_backup = None\<rparr> | Some m \<Rightarrow> m);
                 m1 = (case idxLimit hdr of
                         None \<Rightarrow> m0
                       | Some i \<Rightarrow>
                           (case parseInt10 (trim (col cols i)) of
                              None \<Rightarrow> m0
                            | Some raw \<Rightarrow> if raw > 0 then m0\<lparr>meta_limit := Some (seen_max (meta_limit m0) raw)\<rparr>
                                          else m0));
                 m2 = (case idxBackup hdr of
                         None \<Rightarrow> m1
                       | Some i \<Rightarrow>
                           (case parseInt10 (trim (col cols i)) of
                              None \<Rightarrow> m1
                            | Some raw \<Rightarrow> if raw \<ge> 0 then m1\<lparr>meta_backup := Some (seen_max (meta_backup m1) raw)\<rparr>
                                          else m1));
                 l = (case get2 byGid gid safeSectionIdx of None \<Rightarrow> [] | Some l \<Rightarrow> l)
             in (if name \<in> set l then byGid else put2 byGid gid safeSectionIdx (l @ [name]),
                 put2 metaByGid gid safeSectionIdx m2))"

text \<open>
  The section the recovery builds for index \<open>idx\<close> of one conversation:
  \<^verbatim>\<open>meta.limit || Math.max(20, list.length)\<close> and \<^verbatim>\<open>meta.backupLimit ?? 5\<close>.
\<close>

definition restored_section :: "(nat \<times> jsstring list) list \<Rightarrow> (nat \<times> section_meta) list \<Rightarrow> nat \<Rightarrow> roster_section" where
  "restored_section sectionMap metaMap idx =
     (let l = (case map_of sectionMap idx of None \<Rightarrow> [] | Some l \<Rightarrow> l);
          m = (case map_of metaMap idx of None \<Rightarrow> \<lparr>meta_limit = None, meta_backup = None\<rparr> | Some m \<Rightarrow> m)
      in \<lparr>sec_title = (if idx = 0 then SECTION0_TITLE else SECTION_WORD @ show_nat (idx + 1)),
          limit = (case meta_limit m of
                     None \<Rightarrow> max 20 (int (length l))
                   | Some v \<Rightarrow> if v = 0 then max 20 (int (length l)) else v),
          backupLimit = (case meta_backup m of None \<Rightarrow> 5 | Some v \<Rightarrow> v),
          label = [],
          list = l\<rparr>)"

text \<open>
  The game built for one entry of \<^verbatim>\<open>byGid\<close>: sections 0 to
  \<^verbatim>\<open>Math.max(...sectionIndices, 0)\<close>.
\<close>

definition restored_game :: "int \<Rightarrow> section_meta map2 \<Rightarrow> jsstring \<Rightarrow> (nat \<times> jsstring list) list \<Rightarrow> game" where
  "restored_game now metaByGid gid sectionMap =
     (let maxIdx = fold max (map fst sectionMap) 0;
          metaMap = (case map_of metaByGid gid of None \<Rightarrow> [] | Some mm \<Rightarrow> mm)
      in \<lparr>title = [0x7FBD, 0x7403, 0x63A5, 0x9F8D], gnote = [], active = True, startTime = now,
          lastActiveTime = now, scheduleTime = SNone, scheduleInput = None, anonymous = [],
          anonymousCount = 0,
          sections = map (restored_section sectionMap metaMap) [0..<maxIdx + 1]\<rparr>)"

text \<open>
  \<^verbatim>\<open>restoreGamesFromCsv()\<close> on the text \<open>content\<close> it has read (the cached text
  of the remote store or the file \<^verbatim>\<open>registrations.csv\<close>), with the flag it returns. It
  does nothing unless the registry is empty.
\<close>

definition restoreGamesFromCsv :: "jsstring \<Rightarrow> int \<Rightarrow> registry \<Rightarrow> bool \<times> registry" where
  "restoreGamesFromCsv content now games =
     (if games \<noteq> [] then (False, games)
      else if content = [] then (False, games)
      else
        let lines = split_lines [] (trim content) in
        if length lines \<le> 1 then (False, games)
        else
          let header = map (\<lambda>h. toLowerCase (trim h)) (parseCsvLine (hd lines)) in
          (case index_of (js ''gid'') header of
             None \<Rightarrow> (False, games)
           | Some ig \<Rightarrow>
               (case index_of (js ''sectionidx'') header of
                  None \<Rightarrow> (False, games)
                | Some isec \<Rightarrow>
                    (case index_of (js ''name'') header of
                       None \<Rightarrow> (False, games)
                     | Some iname \<Rightarrow>
                         let hdr = \<lparr>idxGid = ig, idxSection = isec, idxName = iname,
                                    idxLimit = index_of (js ''limit'') header,
                                    idxBackup = index_of (js ''backuplimit'') header\<rparr>;
                             st = fold (restore_row hdr) (tl lines) ([], [])
                         in if fst st = [] then (False, games)
                            else (True,
                                  fold (\<lambda>(gid, sectionMap) gs.
                                          AList.update gid (restored_game now (snd st) gid sectionMap) gs)
                                       (fst st) games)))))"

section \<open>The invariant of the lists\<close>

text \<open>
  Within one section's list the names other than the placeholder are pairwise distinct;
  a registry is well formed when that holds for every section of every game it holds.
\<close>

definition section_ok :: "roster_section \<Rightarrow> bool" where
  "section_ok s = distinct (filter (\<lambda>n. n \<noteq> ANON) (list s))"

definition game_ok :: "game \<Rightarrow> bool" where
  "game_ok g = list_all section_ok (sections g)"

definition registry_ok :: "registry \<Rightarrow> bool" where
  "registry_ok games = (\<forall>gid g. map_of games gid = Some g \<longrightarrow> game_ok g)"

text \<open>
  The same for the lists the recovery collects: one entry per conversation id, and every
  list without a repeated name.
\<close>

definition lists_distinct :: "jsstring list map2 \<Rightarrow> bool" where
  "lists_distinct m = (distinct (map fst m) \<and> (\<forall>g i l. get2 m g i = Some l \<longrightarrow> distinct l))"

section \<open>The round trip through the snapshot\<close>

text \<open>
  A conversation id or a name that the snapshot keeps as it is: not empty, no white
  space at either end (the recovery trims every field), no line feed (the recovery cuts
  the text into lines before it reads the quotes), no surrogate outside a pair (the
  store keeps none).
\<close>

definition csv_safe :: "jsstring \<Rightarrow> bool" where
  "csv_safe s = (s \<noteq> [] \<and> (\<not> is_space (hd s) \<and> \<not> is_space (last s)) \<and> LF \<notin> set s \<and>
                 utf8_text s = s)"

text \<open>
  A capacity that the snapshot keeps as it is: a Number below \<open>10^21\<close> in magnitude, the
  numbers that \<^verbatim>\<open>String\<close> writes in full.
\<close>

definition plain_number :: "int \<Rightarrow> bool" where
  "plain_number i = (to_number (nat \<bar>i\<bar>) = nat \<bar>i\<bar> \<and> \<bar>i\<bar> < 10 ^ 21)"

text \<open>The real names of a list, in their order.\<close>

definition real_names :: "jsstring list \<Rightarrow> jsstring list" where
  "real_names l = filter (\<lambda>name. name \<noteq> ANON) l"

text \<open>
  What a snapshot row stands for: the id, the section index, the name and the two
  capacities of the section. \<open>entry_row\<close> is the text of the row;
  \<open>section_entries\<close>, \<open>game_entries\<close> and \<open>registry_entries\<close> follow the loops of the
  writer.
\<close>

type_synonym entry = "jsstring \<times> nat \<times> jsstring \<times> int \<times> int"

definition entry_row :: "entry \<Rightarrow> jsstring" where
  "entry_row e =
     (case e of (gid, idx, name, lim, bk) \<Rightarrow>
        join_with [COMMA] (map csvEscape
          [gid, show_nat idx, name, (if lim = 0 then [] else show_int lim), show_int bk]))"

text \<open>
  An entry whose row the recovery reads back as it is: the id and the name are kept by
  the snapshot, the section index is below \<open>2^53\<close> (an array index is below \<open>2^32\<close>), the
  two capacities are written in full.
\<close>

definition entry_safe :: "entry \<Rightarrow> bool" where
  "entry_safe e =
     (case e of (gid, idx, name, lim, bk) \<Rightarrow>
        csv_safe gid \<and> csv_safe name \<and> idx < 2 ^ 53 \<and> plain_number lim \<and> plain_number bk)"

definition section_entries :: "jsstring \<Rightarrow> nat \<Rightarrow> roster_section \<Rightarrow> entry list" where
  "section_entries gid idx sec =
     map (\<lambda>name. (gid, idx, name, limit sec, backupLimit sec)) (real_names (list sec))"

fun game_entries :: "jsstring \<Rightarrow> nat \<Rightarrow> roster_section list \<Rightarrow> entry list" where
  "game_entries gid idx [] = []"
| "game_entries gid idx (sec # secs) = section_entries gid idx sec @ game_entries gid (idx + 1) secs"

fun registry_entries :: "registry \<Rightarrow> entry list" where
  "registry_entries [] = []"
| "registry_entries ((gid, g) # games) = game_entries gid 0 (sections g) @ registry_entries games"

text \<open>
  What the recovery does with the row of an entry: the name is pushed on the list of its
  id and section unless the list has it, a limit above 0 and a waitlist limit from 0 on
  are recorded.
\<close>

definition push_entry :: "entry \<Rightarrow> jsstring list map2 \<times> section_meta map2 \<Rightarrow> jsstring list map2 \<times> section_meta map2" where
  "push_entry e st =
     (case e of (gid, idx, name, lim, bk) \<Rightarrow>
        let byGid = ensure2 (fst st) gid idx [];
            metaByGid = ensure2 (snd st) gid idx \<lparr>meta_limit = None, meta_backup = None\<rparr>;
            m0 = (case get2 metaByGid gid idx of
                    None \<Rightarrow> \<lparr>meta_limit = None, meta_backup = None\<rparr> | Some m \<Rightarrow> m);
            m1 = (if lim > 0 then m0\<lparr>meta_limit := Some (seen_max (meta_limit m0) lim)\<rparr> else m0);
            m2 = (if bk \<ge> 0 then m1\<lparr>meta_backup := Some (seen_max (meta_backup m1) bk)\<rparr> else m1);
            l = (case get2 byGid gid idx of None \<Rightarrow> [] | Some l \<Rightarrow> l)
        in (if name \<in> set l then byGid else put2 byGid gid idx (l @ [name]),
            put2 metaByGid gid idx m2))"

text \<open>The header of the snapshot, as the recovery reads it.\<close>

definition snapshot_header :: csv_header where
  "snapshot_header = \<lparr>idxGid = 0, idxSection = 1, idxName = 2, idxLimit = Some 3, idxBackup = Some 4\<rparr>"

text \<open>The names of the entries of a list of entries that belong to one id and section.\<close>

definition names_at :: "jsstring \<Rightarrow> nat \<Rightarrow> entry list \<Rightarrow> jsstring list" where
  "names_at g i es =
     map (\<lambda>(gid, idx, name, lim, bk). name) (filter (\<lambda>(gid, idx, name, lim, bk). gid = g \<and> idx = i) es)"

text \<open>What the recovery has recorded for a section whose rows all carry the capacities \<open>lim\<close> and \<open>bk\<close>.\<close>

definition meta_of :: "int \<Rightarrow> int \<Rightarrow> section_meta" where
  "meta_of lim bk = \<lparr>meta_limit = (if lim > 0 then Some lim else None),
                    meta_backup = (if bk \<ge> 0 then Some bk else None)\<rparr>"

declare confirmed_loop.simps [simp del]
declare waitlist_loop.simps [simp del]
declare decimal.simps [simp del]
declare bit_len.simps [simp del]
declare shortest_from.simps [simp del]
declare split_runs.simps [simp del]

section \<open>Escaping and parsing one field\<close>

lemma parse_plain_run:
  "\<not> list_ex (\<lambda>c. c = DQ \<or> c = COMMA) s \<Longrightarrow>
   parseCsvLoop False cur res (s @ rest) = parseCsvLoop False (cur @ s) res rest"
  by (induction s arbitrary: cur) simp_all

lemma parse_quoted_run:
  "rest = [] \<or> hd rest \<noteq> DQ \<Longrightarrow>
   parseCsvLoop True cur res (double_quotes s @ DQ # rest) = parseCsvLoop False (cur @ s) res rest"
proof (induction s arbitrary: cur)
  case Nil
  then show ?case by (cases rest) auto
next
  case (Cons c cs)
  show ?case
  proof (cases "c = DQ")
    case True
    then show ?thesis using Cons.IH [OF Cons.prems, of "cur @ [DQ]"] by simp
  next
    case False
    obtain y ys where ys: "double_quotes cs @ DQ # rest = y # ys"
      by (cases "double_quotes cs @ DQ # rest") auto
    have "parseCsvLoop True cur res (double_quotes (c # cs) @ DQ # rest) =
          parseCsvLoop True cur res (c # y # ys)"
      using False ys by simp
    also have "\<dots> = parseCsvLoop True (cur @ [c]) res (y # ys)"
      using False by simp
    also have "\<dots> = parseCsvLoop False ((cur @ [c]) @ cs) res rest"
      using Cons.IH [OF Cons.prems, of "cur @ [c]"] ys by simp
    finally show ?thesis by simp
  qed
qed

lemma parse_escaped_field:
  "rest = [] \<or> hd rest \<noteq> DQ \<Longrightarrow>
   parseCsvLoop False [] res (csvEscape s @ rest) = parseCsvLoop False s res rest"
proof (cases "needs_quoting s")
  case True
  assume r: "rest = [] \<or> hd rest \<noteq> DQ"
  show ?thesis using True parse_quoted_run [OF r, of "[]" res s] by (simp add: csvEscape_def)
next
  case False
  then have "\<not> list_ex (\<lambda>c. c = DQ \<or> c = COMMA) s"
    by (auto simp: needs_quoting_def list_ex_iff)
  then show ?thesis using False parse_plain_run [of s "[]" res rest] by (simp add: csvEscape_def)
qed

text \<open>
  C8. For every string, escaping it with \<open>csvEscape\<close> and parsing the resulting
  one-field line with \<open>parseCsvLine\<close> gives back exactly that string, as the only
  field of the row. This covers strings with commas, double quotes and line breaks.
\<close>

theorem csv_field_roundtrip: "parseCsvLine (csvEscape s) = [s]"
  using parse_escaped_field [of "[]" "[]" s] by (simp add: parseCsvLine_def)


section \<open>Rendering\<close>




section \<open>Removing entries\<close>

lemma remove1_as_filter:
  "distinct (filter (\<lambda>n. n \<noteq> ANON) l) \<Longrightarrow> nm \<noteq> ANON \<Longrightarrow> remove1 nm l = filter (\<lambda>n. n \<noteq> nm) l"
proof (induction l)
  case Nil
  then show ?case by simp
next
  case (Cons x xs)
  show ?case
  proof (cases "x = nm")
    case True
    then have "nm \<notin> set xs" using Cons.prems by auto
    then have "filter (\<lambda>n. n \<noteq> nm) xs = xs" by (auto simp: filter_id_conv)
    then show ?thesis using True by simp
  next
    case False
    moreover have "distinct (filter (\<lambda>n. n \<noteq> ANON) xs)" using Cons.prems(1) by (simp split: if_splits)
    ultimately show ?thesis using Cons.IH Cons.prems(2) by simp
  qed
qed

lemma removeAnon_loop_none:
  "n \<le> length l \<Longrightarrow> ANON \<notin> set (take n l) \<Longrightarrow> removeAnon_loop l n = l"
proof (induction n)
  case 0
  then show ?case by simp
next
  case (Suc n)
  then have "take (Suc n) l = take n l @ [l ! n]" by (simp add: take_Suc_conv_app_nth)
  then show ?case using Suc by auto
qed

lemma removeAnon_loop_last:
  "n \<le> length l \<Longrightarrow> ANON \<in> set (take n l) \<Longrightarrow>
   \<exists>k<n. l ! k = ANON \<and> ANON \<notin> set (drop (Suc k) (take n l)) \<and>
          removeAnon_loop l n = take k l @ drop (Suc k) l"
proof (induction n)
  case 0
  then show ?case by simp
next
  case (Suc n)
  have tk: "take (Suc n) l = take n l @ [l ! n]" using Suc.prems(1) by (simp add: take_Suc_conv_app_nth)
  show ?case
  proof (cases "l ! n = ANON")
    case True
    have "drop (Suc n) (take (Suc n) l) = []" by simp
    then show ?thesis using True by (intro exI [of _ n]) simp
  next
    case False
    then have "ANON \<in> set (take n l)" using Suc.prems(2) tk by auto
    then obtain k where k: "k < n" "l ! k = ANON" "ANON \<notin> set (drop (Suc k) (take n l))"
      "removeAnon_loop l n = take k l @ drop (Suc k) l"
      using Suc.IH Suc.prems(1) by auto
    have "drop (Suc k) (take (Suc n) l) = drop (Suc k) (take n l) @ [l ! n]"
      using k(1) Suc.prems(1) tk by simp
    then have "ANON \<notin> set (drop (Suc k) (take (Suc n) l))" using k(3) False by auto
    then show ?thesis using k False by (intro exI [of _ k]) simp
  qed
qed

lemma update_same: "map_of games gid = Some g \<Longrightarrow> AList.update gid g games = games"
  by (induction games) (auto split: if_splits)

section \<open>Leaving\<close>


text \<open>
  C9, as amended. In a game that is active and not waiting for a scheduled opening, a
  leave command whose name holds the word for "anonymous" removes from section 0 the
  placeholder at the greatest index \<open>k\<close> that holds one (no placeholder follows it) and
  changes nothing else; without a placeholder in section 0 the registry stays as it is.
  A leave command naming a real name (not the placeholder token, not holding that word)
  removes that name from every section: where the real names of each section are
  pairwise distinct, as the data model requires, every section's list becomes the list
  of its entries other than that name, in their order.
\<close>

theorem leave_removes_entry:
  assumes g: "map_of games gid = Some g" and act: "active g"
    and opn: "pending_schedule now g = None"
    and secs: "sections g = s # rest" and nm: "nm \<noteq> []"
  shows "(has_infix ANON_WORD nm \<and> ANON \<in> set (list s) \<longrightarrow>
            (\<exists>k<length (list s). list s ! k = ANON \<and> ANON \<notin> set (drop (Suc k) (list s)) \<and>
               snd (handle_leave now who gid nm games) =
               AList.update gid (g\<lparr>sections := s\<lparr>list := take k (list s) @ drop (Suc k) (list s)\<rparr> # rest\<rparr>) games))
       \<and> (has_infix ANON_WORD nm \<and> ANON \<notin> set (list s) \<longrightarrow>
            snd (handle_leave now who gid nm games) = games)
       \<and> (\<not> has_infix ANON_WORD nm \<and> nm \<noteq> ANON \<and>
          (\<forall>x\<in>set (sections g). distinct (filter (\<lambda>n. n \<noteq> ANON) (list x))) \<longrightarrow>
            snd (handle_leave now who gid nm games) =
            AList.update gid (g\<lparr>sections := map (\<lambda>x. x\<lparr>list := filter (\<lambda>n. n \<noteq> nm) (list x)\<rparr>) (sections g)\<rparr>) games)"
proof (intro conjI impI)
  assume a: "has_infix ANON_WORD nm \<and> ANON \<in> set (list s)"
  then have "ANON \<in> set (take (length (list s)) (list s))" by simp
  from removeAnon_loop_last [OF le_refl this]
  obtain k where k: "k < length (list s)" "list s ! k = ANON" "ANON \<notin> set (drop (Suc k) (list s))"
    "removeAnon_loop (list s) (length (list s)) = take k (list s) @ drop (Suc k) (list s)"
    by auto
  have "snd (handle_leave now who gid nm games) =
        AList.update gid (g\<lparr>sections := s\<lparr>list := take k (list s) @ drop (Suc k) (list s)\<rparr> # rest\<rparr>) games"
    using g act opn secs nm a k(4) by (simp add: handle_leave_def removeAnon_def Let_def)
  then show "\<exists>k<length (list s). list s ! k = ANON \<and> ANON \<notin> set (drop (Suc k) (list s)) \<and>
               snd (handle_leave now who gid nm games) =
               AList.update gid (g\<lparr>sections := s\<lparr>list := take k (list s) @ drop (Suc k) (list s)\<rparr> # rest\<rparr>) games"
    using k(1,2,3) by blast
next
  assume a: "has_infix ANON_WORD nm \<and> ANON \<notin> set (list s)"
  then have "removeAnon_loop (list s) (length (list s)) = list s"
    using removeAnon_loop_none [of "length (list s)" "list s"] by simp
  then have "removeAnon g = g" using secs by (simp add: removeAnon_def)
  then show "snd (handle_leave now who gid nm games) = games"
    using g act opn nm a update_same [OF g] by (simp add: handle_leave_def Let_def)
next
  assume a: "\<not> has_infix ANON_WORD nm \<and> nm \<noteq> ANON \<and>
          (\<forall>x\<in>set (sections g). distinct (filter (\<lambda>n. n \<noteq> ANON) (list x)))"
  then have eq: "map (\<lambda>x. x\<lparr>list := remove1 nm (list x)\<rparr>) (sections g) =
             map (\<lambda>x. x\<lparr>list := filter (\<lambda>n. n \<noteq> nm) (list x)\<rparr>) (sections g)"
    using remove1_as_filter by (intro map_cong) auto
  show "snd (handle_leave now who gid nm games) =
            AList.update gid (g\<lparr>sections := map (\<lambda>x. x\<lparr>list := filter (\<lambda>n. n \<noteq> nm) (list x)\<rparr>) (sections g)\<rparr>) games"
    unfolding eq [symmetric]
    using g act opn nm a by (simp add: handle_leave_def removeFromList_def Let_def)
qed

lemma ex_anon_word: "has_infix ANON_WORD ANON_WORD" by simp
lemma ex_B_plain: "\<not> has_infix ANON_WORD (js ''B'')" by (simp add: js_def)
lemma ANON_neq [simp]: "js ''A'' \<noteq> ANON" "js ''B'' \<noteq> ANON" "js ''C'' \<noteq> ANON"
  by (simp_all add: js_def ANON_def)

theorem leave_removes_entry_witness:
  "snd (handle_leave 5 ex_who (js ''C1'') ANON_WORD
          [(js ''C1'', ex_game [ex_section [js ''A'', ANON, js ''B'', ANON], ex_section [js ''B'', js ''C'']])]) =
     [(js ''C1'', ex_game [ex_section [js ''A'', ANON, js ''B''], ex_section [js ''B'', js ''C'']])]
   \<and> snd (handle_leave 5 ex_who (js ''C1'') (js ''B'')
          [(js ''C1'', ex_game [ex_section [js ''A'', ANON, js ''B'', ANON], ex_section [js ''B'', js ''C'']])]) =
     [(js ''C1'', ex_game [ex_section [js ''A'', ANON, ANON], ex_section [js ''C'']])]"
proof -
  let ?s = "ex_section [js ''A'', ANON, js ''B'', ANON]"
  let ?r = "[ex_section [js ''B'', js ''C'']]"
  let ?g = "ex_game (?s # ?r)"
  let ?games = "[(js ''C1'', ?g)]"
  have h1: "map_of ?games (js ''C1'') = Some ?g" by simp
  have h2: "active ?g" by (simp add: ex_game_def)
  have h3: "pending_schedule 5 ?g = None" by (simp add: ex_game_def pending_schedule_def)
  have h4: "sections ?g = ?s # ?r" by (simp add: ex_game_def)
  have l: "list ?s = [js ''A'', ANON, js ''B'', ANON]" by (simp add: ex_section_def)
  have a: "snd (handle_leave 5 ex_who (js ''C1'') ANON_WORD ?games) =
           [(js ''C1'', ex_game [ex_section [js ''A'', ANON, js ''B''], ex_section [js ''B'', js ''C'']])]"
  proof -
    from leave_removes_entry [OF h1 h2 h3 h4, of ANON_WORD ex_who]
    obtain k where k: "k < length (list ?s)" "list ?s ! k = ANON" "ANON \<notin> set (drop (Suc k) (list ?s))"
      "snd (handle_leave 5 ex_who (js ''C1'') ANON_WORD ?games) =
       AList.update (js ''C1'') (?g\<lparr>sections := ?s\<lparr>list := take k (list ?s) @ drop (Suc k) (list ?s)\<rparr> # ?r\<rparr>) ?games"
      using l by auto
    have "k = 3"
    proof -
      have "k < 4" using k(1) l by simp
      then consider "k = 0" | "k = 1" | "k = 2" | "k = 3" by linarith
      then show ?thesis using k(2,3) l by cases (simp_all add: numeral_eq_Suc)
    qed
    then show ?thesis using k(4) l by (simp add: ex_game_def ex_section_def numeral_eq_Suc)
  qed
  have b: "snd (handle_leave 5 ex_who (js ''C1'') (js ''B'') ?games) =
     [(js ''C1'', ex_game [ex_section [js ''A'', ANON, ANON], ex_section [js ''C'']])]"
  proof -
    have nB: "js ''B'' \<noteq> []" by (simp add: js_def)
    have d: "\<forall>x\<in>set (sections ?g). distinct (filter (\<lambda>n. n \<noteq> ANON) (list x))"
      by (simp add: ex_game_def ex_section_def js_def)
    have "js ''A'' \<noteq> js ''B''" "js ''C'' \<noteq> js ''B''" "ANON \<noteq> js ''B''" by (simp_all add: js_def ANON_def)
    then show ?thesis
      using leave_removes_entry [OF h1 h2 h3 h4 nB, of ex_who] ex_B_plain d
      by (simp add: ex_game_def ex_section_def)
  qed
  show ?thesis using a b by simp
qed

text \<open>
  The claim as it was stated speaks of every leave command that names a real name. A
  real name on the list that holds the word for "anonymous" (here the word followed by
  the character U+738B) is read as the anonymous command: the name stays where it is
  and the last placeholder of section 0 is removed. In a game whose \<^verbatim>\<open>active\<close> flag
  is false, and in a game that waits for its scheduled opening, the command is rejected
  and the name stays on the list. And where a list holds the name twice, which the data
  model excludes, only the first of the two entries is removed.
\<close>

theorem leave_removes_entry_counterexample:
  "snd (handle_leave 5 ex_who (js ''C1'') (ANON_WORD @ [0x738B])
          [(js ''C1'', ex_game [ex_section [ANON, js ''B'', ANON_WORD @ [0x738B]]])]) =
     [(js ''C1'', ex_game [ex_section [js ''B'', ANON_WORD @ [0x738B]]])]
   \<and> handle_leave 5 ex_who (js ''C1'') (js ''B'')
          [(js ''C1'', (ex_game [ex_section [js ''A'', js ''B'']])\<lparr>active := False\<rparr>)] =
     (Rejected Ended, [(js ''C1'', (ex_game [ex_section [js ''A'', js ''B'']])\<lparr>active := False\<rparr>)])
   \<and> handle_leave 5 ex_who (js ''C1'') (js ''B'')
          [(js ''C1'', (ex_game [ex_section [js ''A'', js ''B'']])\<lparr>scheduleTime := SNum 10\<rparr>)] =
     (Rejected (NotYetOpen 10),
      [(js ''C1'', (ex_game [ex_section [js ''A'', js ''B'']])\<lparr>scheduleTime := SNum 10\<rparr>)])
   \<and> snd (handle_leave 5 ex_who (js ''C1'') (js ''B'')
          [(js ''C1'', ex_game [ex_section [js ''B'', js ''A'', js ''B'']])]) =
     [(js ''C1'', ex_game [ex_section [js ''A'', js ''B'']])]"
  by (simp add: handle_leave_def ex_game_def ex_section_def pending_schedule_def removeAnon_def
        removeFromList_def js_def ANON_def Let_def numeral_eq_Suc)

section \<open>The fold rule of the rendering\<close>




section \<open>Leaving with a name that is not on the list\<close>





section \<open>Rejecting a batch with a duplicate\<close>

text \<open>
  C2. Take a game with a section 0. When the real names a join command would add
  (the names other than the placeholder token) repeat a name among themselves or hold a
  name that is already on the list of section 0, the handler answers with one
  rejection and returns the registry as it was, so no name of the batch is added and
  the list keeps its length and order; in an active game that is not waiting for a
  scheduled opening the rejection is the duplicate-name one. The same holds for the
  names of a bulk-list command.
\<close>

theorem duplicate_batch_rejected:
  assumes g: "map_of games gid = Some g" and secs: "sections g = s # rest"
  shows "(filter (\<lambda>n. n \<noteq> ANON) (join_names who count content (list s)) \<noteq> [] \<and>
          (\<not> distinct (filter (\<lambda>n. n \<noteq> ANON) (join_names who count content (list s))) \<or>
           (\<exists>n\<in>set (filter (\<lambda>n. n \<noteq> ANON) (join_names who count content (list s))). n \<in> set (list s))) \<longrightarrow>
            (\<exists>r. handle_join now who gid count content games = (Rejected r, games)) \<and>
            (active g \<and> pending_schedule now g = None \<longrightarrow>
               handle_join now who gid count content games = (Rejected Duplicate, games)))
       \<and> (input \<noteq> [] \<and> input \<noteq> js ''#'' \<and>
          (\<not> distinct (split_nonempty is_space input) \<or>
           (\<exists>n\<in>set (split_nonempty is_space input). n \<in> set (list s))) \<longrightarrow>
            (\<exists>r. handle_bulk gid input games = (Rejected r, games)) \<and>
            (active g \<longrightarrow> handle_bulk gid input games = (Rejected Duplicate, games)))"
proof (intro conjI impI)
  let ?names = "join_names who count content (list s)"
  let ?real = "filter (\<lambda>n. n \<noteq> ANON) ?names"
  assume a: "?real \<noteq> [] \<and> (\<not> distinct ?real \<or> (\<exists>n\<in>set ?real. n \<in> set (list s)))"
  then have ne: "?names \<noteq> []" by auto
  have dup: "list_ex (\<lambda>n. n \<in> set (list s)) ?real \<or> \<not> distinct ?real"
    using a by (auto simp: list_ex_iff)
  show "\<exists>r. handle_join now who gid count content games = (Rejected r, games)"
    using g secs ne dup by (auto simp: handle_join_def Let_def split: option.splits)
  assume "active g \<and> pending_schedule now g = None"
  then show "handle_join now who gid count content games = (Rejected Duplicate, games)"
    using g secs ne dup by (auto simp: handle_join_def Let_def)
next
  let ?names = "split_nonempty is_space input"
  assume a: "input \<noteq> [] \<and> input \<noteq> js ''#'' \<and>
             (\<not> distinct ?names \<or> (\<exists>n\<in>set ?names. n \<in> set (list s)))"
  then have dup: "list_ex (\<lambda>n. n \<in> set (list s)) ?names \<or> \<not> distinct ?names"
    by (auto simp: list_ex_iff)
  show "\<exists>r. handle_bulk gid input games = (Rejected r, games)"
    using g secs a dup by (auto simp: handle_bulk_def Let_def)
  assume "active g"
  then show "handle_bulk gid input games = (Rejected Duplicate, games)"
    using g secs a dup by (auto simp: handle_bulk_def Let_def)
qed

lemma ex_split_AA:
  "split_nonempty (\<lambda>c. is_space c \<or> c = COMMA) (js ''A A'') = [js ''A'', js ''A'']"
  by (simp add: split_nonempty_def split_runs.simps js_def is_space_def)

lemma ex_split_BC:
  "split_nonempty is_space (js ''B C'') = [js ''B'', js ''C'']"
  by (simp add: split_nonempty_def split_runs.simps js_def is_space_def)

theorem duplicate_batch_rejected_witness:
  "handle_join 5 ex_who (js ''C1'') 2 (js ''A A'') [(js ''C1'', ex_game [ex_section [js ''B'']])] =
     (Rejected Duplicate, [(js ''C1'', ex_game [ex_section [js ''B'']])])
   \<and> handle_bulk (js ''C1'') (js ''B C'') [(js ''C1'', ex_game [ex_section [js ''B'']])] =
     (Rejected Duplicate, [(js ''C1'', ex_game [ex_section [js ''B'']])])"
proof -
  let ?s = "ex_section [js ''B'']"
  let ?g = "ex_game [?s]"
  let ?games = "[(js ''C1'', ?g)]"
  have h1: "map_of ?games (js ''C1'') = Some ?g" by simp
  have h2: "sections ?g = ?s # []" by (simp add: ex_game_def)
  have h3: "active ?g \<and> pending_schedule 5 ?g = None" by (simp add: ex_game_def pending_schedule_def)
  have nm: "join_names ex_who 2 (js ''A A'') (list ?s) = [js ''A'', js ''A'']"
    using ex_split_AA by (simp add: join_names_def js_def)
  have j: "filter (\<lambda>n. n \<noteq> ANON) (join_names ex_who 2 (js ''A A'') (list ?s)) \<noteq> [] \<and>
          (\<not> distinct (filter (\<lambda>n. n \<noteq> ANON) (join_names ex_who 2 (js ''A A'') (list ?s))) \<or>
           (\<exists>n\<in>set (filter (\<lambda>n. n \<noteq> ANON) (join_names ex_who 2 (js ''A A'') (list ?s))). n \<in> set (list ?s)))"
    unfolding nm by simp
  have b: "js ''B C'' \<noteq> [] \<and> js ''B C'' \<noteq> js ''#'' \<and>
          (\<not> distinct (split_nonempty is_space (js ''B C'')) \<or>
           (\<exists>n\<in>set (split_nonempty is_space (js ''B C'')). n \<in> set (list ?s)))"
    unfolding ex_split_BC by (simp add: js_def ex_section_def)
  show ?thesis
    using duplicate_batch_rejected [OF h1 h2, of ex_who 2 "js ''A A''" 5 "js ''B C''"] j b h3
    by blast
qed

section \<open>Rendering three confirmed and two waitlisted names\<close>











section \<open>The sigil of join and leave\<close>

lemma trim_append_spaces:
  "list_all is_space w \<Longrightarrow> trim (a @ w) = trim a"
proof (cases "list_all is_space a")
  case True
  assume "list_all is_space w"
  then have e1: "dropWhile is_space (a @ w) = []"
    using True by (auto simp: list_all_iff dropWhile_eq_Nil_conv)
  have e2: "dropWhile is_space a = []"
    using True by (auto simp: list_all_iff dropWhile_eq_Nil_conv)
  show ?thesis unfolding trim_def e1 e2 by simp
next
  case False
  assume w: "list_all is_space w"
  from False obtain x where x: "x \<in> set a" "\<not> is_space x" by (auto simp: list_all_iff)
  then have e1: "dropWhile is_space (a @ w) = dropWhile is_space a @ w"
    by (simp add: dropWhile_append1)
  have e2: "dropWhile is_space (rev w @ rev (dropWhile is_space a)) =
                 dropWhile is_space (rev (dropWhile is_space a))"
    using w by (intro dropWhile_append2) (auto simp: list_all_iff)
  show ?thesis unfolding trim_def e1 rev_append e2 by (rule refl)
qed

lemma digit_value_range: "is_digit19 d \<Longrightarrow> 1 \<le> digit_value d \<and> digit_value d \<le> 9"
  by (simp add: is_digit19_def digit_value_def word_le_nat_alt) linarith

lemma sigil_start_Some:
  "is_digit19 d \<Longrightarrow>
   sigil_start sig (sig # d # rest) =
   Some (digit_value d, takeWhile (\<lambda>x. \<not> is_line_terminator x) (dropWhile is_space rest))"
  by (simp add: sigil_start_def)

lemma sigil_start_None:
  "\<not> (\<exists>d rest. text = sig # d # rest \<and> is_digit19 d) \<Longrightarrow> sigil_start sig text = None"
  by (auto simp: sigil_start_def split: list.splits)

lemma sigil_start_digit:
  "sigil_start sig text = Some (n, c) \<Longrightarrow> 1 \<le> n \<and> n \<le> 9"
  using digit_value_range by (auto simp: sigil_start_def split: list.splits if_splits)

lemma sigil_end_sound:
  assumes "sigil_end sig text = Some (n, g1)"
  shows "\<exists>p d. text = p @ [sig, d] \<and> is_digit19 d \<and> n = digit_value d \<and> trim g1 = trim p"
proof -
  let ?p = "take (length text - 2) text"
  let ?d = "text ! (length text - 1)"
  from assms have len: "length text \<ge> 2" and sg: "text ! (length text - 2) = sig" and dg: "is_digit19 ?d"
    by (auto simp: sigil_end_def split: if_splits)
  let ?P = "\<lambda>k. \<not> list_ex is_line_terminator (take k ?p) \<and> list_all is_space (drop k ?p)"
  have unf: "sigil_end sig text =
      (case find ?P [1..<length ?p + 1] of None \<Rightarrow> None | Some k \<Rightarrow> Some (digit_value ?d, take k ?p))"
    using len sg dg unfolding sigil_end_def Let_def by (simp only: if_True simp_thms)
  obtain k where
    k: "find ?P [1..<length ?p + 1] = Some k" and r: "n = digit_value ?d" "g1 = take k ?p"
  proof (cases "find ?P [1..<length ?p + 1]")
    case None
    then show ?thesis using assms unf by simp
  next
    case (Some k)
    then have "n = digit_value ?d" "g1 = take k ?p" using assms unf by simp_all
    then show ?thesis using Some that by blast
  qed
  from k have ws: "list_all is_space (drop k ?p)" by (auto simp: find_Some_iff)
  have "trim ?p = trim (take k ?p @ drop k ?p)" by (simp only: append_take_drop_id)
  also have "\<dots> = trim (take k ?p)" using ws by (rule trim_append_spaces)
  finally have tr: "trim g1 = trim ?p" using r(2) by (simp only:)
  have "drop (length text - 2) text = [sig, ?d]"
  proof -
    have l2: "length (drop (length text - 2) text) = 2" using len by simp
    then obtain x y where xy: "drop (length text - 2) text = [x, y]"
      by (cases "drop (length text - 2) text"; cases "tl (drop (length text - 2) text)") auto
    have "x = drop (length text - 2) text ! 0" "y = drop (length text - 2) text ! 1" using xy by simp_all
    then have "x = text ! (length text - 2)" "y = text ! (length text - 2 + 1)"
      using len by (simp_all add: nth_drop)
    moreover have "length text - 2 + 1 = length text - 1" using len by linarith
    ultimately show ?thesis using xy sg by simp
  qed
  then have "text = ?p @ [sig, ?d]" by (metis append_take_drop_id)
  then show ?thesis using dg r(1) tr by blast
qed

lemma sigil_end_complete:
  assumes d: "is_digit19 d" and nolt: "\<not> list_ex is_line_terminator p" and ne: "p \<noteq> []"
  shows "\<exists>g1. sigil_end sig (p @ [sig, d]) = Some (digit_value d, g1) \<and> trim g1 = trim p"
proof -
  let ?text = "p @ [sig, d]"
  let ?P = "\<lambda>k. \<not> list_ex is_line_terminator (take k p) \<and> list_all is_space (drop k p)"
  have tp: "take (length ?text - 2) ?text = p" by simp
  have n1: "?text ! (length ?text - 2) = sig" by (simp add: nth_append)
  have n2: "?text ! (length ?text - 1) = d" by (simp add: nth_append)
  have "length p \<in> set [1..<length p + 1]" using ne by (cases p) auto
  moreover have "?P (length p)" using nolt by simp
  ultimately have "find ?P [1..<length p + 1] \<noteq> None" by (auto simp: find_None_iff)
  then obtain k where k: "find ?P [1..<length p + 1] = Some k" by auto
  then have ws: "list_all is_space (drop k p)" by (auto simp: find_Some_iff)
  have "trim p = trim (take k p @ drop k p)" by (simp only: append_take_drop_id)
  also have "\<dots> = trim (take k p)" using ws by (rule trim_append_spaces)
  finally have "trim (take k p) = trim p" by (simp only:)
  moreover have "sigil_end sig ?text = Some (digit_value d, take k p)"
    using d k n1 n2 tp by (simp add: sigil_end_def del: One_nat_def)
  ultimately show ?thesis by blast
qed

lemma sigil_end_digit:
  "sigil_end sig text = Some (n, c) \<Longrightarrow> 1 \<le> n \<and> n \<le> 9"
  using sigil_end_sound digit_value_range by blast

lemma parse_join_examples:
  "parse_join (js ''+0'') = None"
  "parse_join (js ''A+0'') = None"
  "parse_join (js ''A+10'') = None"
  "parse_join (js ''+10'') = Some (1, js ''0'')"
  by (simp_all add: parse_join_def sigil_start_def sigil_end_def js_def is_digit19_def digit_value_def
        trim_def is_space_def is_line_terminator_def)

lemma parse_leave_examples:
  "parse_leave (js ''-0'') = None"
  "parse_leave (js ''A-0'') = None"
  "parse_leave (js ''A-10'') = None"
  "parse_leave (js ''-10'') = Some (js ''0'')"
  by (simp_all add: parse_leave_def sigil_start_def sigil_end_def js_def is_digit19_def digit_value_def
        trim_def is_space_def is_line_terminator_def)

lemma parse_join_start:
  "is_digit19 d \<Longrightarrow>
   parse_join (PLUS # d # rest) =
   Some (digit_value d, trim (takeWhile (\<lambda>x. \<not> is_line_terminator x) (dropWhile is_space rest)))"
  by (simp add: parse_join_def sigil_start_Some)

lemma parse_leave_start:
  "is_digit19 d \<Longrightarrow>
   parse_leave (MINUS # d # rest) =
   Some (trim (takeWhile (\<lambda>x. \<not> is_line_terminator x) (dropWhile is_space rest)))"
  by (simp add: parse_leave_def sigil_start_Some)

lemma parse_join_end_sound:
  assumes ns: "\<not> (\<exists>d rest. text = PLUS # d # rest \<and> is_digit19 d)"
    and r: "parse_join text = Some (n, name)"
  shows "name \<noteq> [] \<and> (\<exists>p d. text = p @ [PLUS, d] \<and> is_digit19 d \<and> n = digit_value d \<and> name = trim p)"
proof -
  have s: "sigil_start PLUS text = None" using ns by (rule sigil_start_None)
  obtain g1 where e: "sigil_end PLUS text = Some (n, g1)" and nm: "name = trim g1" "trim g1 \<noteq> []"
    using r s by (auto simp: parse_join_def split: option.splits if_splits)
  from sigil_end_sound [OF e] nm show ?thesis by auto
qed

lemma parse_leave_end_sound:
  assumes ns: "\<not> (\<exists>d rest. text = MINUS # d # rest \<and> is_digit19 d)"
    and r: "parse_leave text = Some name"
  shows "name \<noteq> [] \<and> (\<exists>p d. text = p @ [MINUS, d] \<and> is_digit19 d \<and> name = trim p)"
proof -
  have s: "sigil_start MINUS text = None" using ns by (rule sigil_start_None)
  obtain n g1 where e: "sigil_end MINUS text = Some (n, g1)" and nm: "name = trim g1" "trim g1 \<noteq> []"
    using r s by (auto simp: parse_leave_def split: option.splits if_splits)
  from sigil_end_sound [OF e] nm show ?thesis by auto
qed

lemma trim_nonempty: "trim p \<noteq> [] \<Longrightarrow> p \<noteq> []"
  by (auto simp: trim_def)

lemma parse_join_end_complete:
  assumes ns: "\<not> (\<exists>d' rest. p @ [PLUS, d] = PLUS # d' # rest \<and> is_digit19 d')"
    and d: "is_digit19 d" and nolt: "\<not> list_ex is_line_terminator p" and ne: "trim p \<noteq> []"
  shows "parse_join (p @ [PLUS, d]) = Some (digit_value d, trim p)"
proof -
  have s: "sigil_start PLUS (p @ [PLUS, d]) = None" using ns by (rule sigil_start_None)
  from sigil_end_complete [OF d nolt trim_nonempty [OF ne], of PLUS]
  obtain g1 where "sigil_end PLUS (p @ [PLUS, d]) = Some (digit_value d, g1)" "trim g1 = trim p"
    by blast
  then show ?thesis using s ne by (simp add: parse_join_def)
qed

lemma parse_leave_end_complete:
  assumes ns: "\<not> (\<exists>d' rest. p @ [MINUS, d] = MINUS # d' # rest \<and> is_digit19 d')"
    and d: "is_digit19 d" and nolt: "\<not> list_ex is_line_terminator p" and ne: "trim p \<noteq> []"
  shows "parse_leave (p @ [MINUS, d]) = Some (trim p)"
proof -
  have s: "sigil_start MINUS (p @ [MINUS, d]) = None" using ns by (rule sigil_start_None)
  from sigil_end_complete [OF d nolt trim_nonempty [OF ne], of MINUS]
  obtain g1 where "sigil_end MINUS (p @ [MINUS, d]) = Some (digit_value d, g1)" "trim g1 = trim p"
    by blast
  then show ?thesis using s ne by (simp add: parse_leave_def)
qed

lemma parse_join_digit:
  "parse_join text = Some (n, name) \<Longrightarrow> 1 \<le> n \<and> n \<le> 9"
  using sigil_start_digit sigil_end_digit
  by (fastforce simp: parse_join_def split: option.splits if_splits)

text \<open>
  C7, as amended. The join and the leave command are recognised in this order. A text
  that starts with the sigil and a digit 1 to 9 is taken in the start form, whatever
  follows: the content is the rest of the first line after the white space, trimmed,
  and it may be empty. Only a text without that start is tried in the end form, and a
  match there means that the text ends with the sigil and a digit 1 to 9 and that what
  stands before, trimmed, is a non-empty name; a text of that shape whose first part has
  no line terminator does match. The count is always between 1 and 9. A digit 0 after
  the sigil matches in neither form (\<open>+0\<close>, \<open>A+0\<close>, \<open>-0\<close>, \<open>A-0\<close>), and so does a
  two-digit count at the end (\<open>A+10\<close>, \<open>A-10\<close>). A two-digit count at the start is
  read in the start form as its first digit followed by a name: \<open>+10\<close> is the join of
  the name \<open>0\<close> with count 1, \<open>-10\<close> the leave of the name \<open>0\<close>.
\<close>

theorem sigil_parsing:
  "(is_digit19 d \<longrightarrow>
      parse_join (PLUS # d # rest) =
        Some (digit_value d, trim (takeWhile (\<lambda>x. \<not> is_line_terminator x) (dropWhile is_space rest))) \<and>
      parse_leave (MINUS # d # rest) =
        Some (trim (takeWhile (\<lambda>x. \<not> is_line_terminator x) (dropWhile is_space rest))))
   \<and> (\<not> (\<exists>d rest. text = PLUS # d # rest \<and> is_digit19 d) \<and> parse_join text = Some (n, name) \<longrightarrow>
        name \<noteq> [] \<and> (\<exists>p d. text = p @ [PLUS, d] \<and> is_digit19 d \<and> n = digit_value d \<and> name = trim p))
   \<and> (\<not> (\<exists>d rest. text = MINUS # d # rest \<and> is_digit19 d) \<and> parse_leave text = Some name \<longrightarrow>
        name \<noteq> [] \<and> (\<exists>p d. text = p @ [MINUS, d] \<and> is_digit19 d \<and> name = trim p))
   \<and> (\<not> (\<exists>d' rest. p @ [PLUS, d] = PLUS # d' # rest \<and> is_digit19 d') \<and> is_digit19 d \<and>
       \<not> list_ex is_line_terminator p \<and> trim p \<noteq> [] \<longrightarrow>
        parse_join (p @ [PLUS, d]) = Some (digit_value d, trim p))
   \<and> (\<not> (\<exists>d' rest. p @ [MINUS, d] = MINUS # d' # rest \<and> is_digit19 d') \<and> is_digit19 d \<and>
       \<not> list_ex is_line_terminator p \<and> trim p \<noteq> [] \<longrightarrow>
        parse_leave (p @ [MINUS, d]) = Some (trim p))
   \<and> (parse_join text = Some (n, name) \<longrightarrow> 1 \<le> n \<and> n \<le> 9)
   \<and> parse_join (js ''+0'') = None \<and> parse_join (js ''A+0'') = None
   \<and> parse_join (js ''A+10'') = None \<and> parse_join (js ''+10'') = Some (1, js ''0'')
   \<and> parse_leave (js ''-0'') = None \<and> parse_leave (js ''A-0'') = None
   \<and> parse_leave (js ''A-10'') = None \<and> parse_leave (js ''-10'') = Some (js ''0'')"
  using parse_join_start [of d rest] parse_leave_start [of d rest]
    parse_join_end_sound [of "text" n name] parse_leave_end_sound [of "text" name]
    parse_join_end_complete [of p d] parse_leave_end_complete [of p d]
    parse_join_digit [of "text" n name] parse_join_examples parse_leave_examples
  by (intro conjI impI) blast+

theorem sigil_parsing_witness:
  "parse_join (js ''+3 Amy Bob'') = Some (3, js ''Amy Bob'')
   \<and> parse_leave (js ''-1 Amy'') = Some (js ''Amy'')
   \<and> parse_join (js ''Amy +3'') = Some (3, js ''Amy'')
   \<and> parse_leave (js ''Amy-2'') = Some (js ''Amy'')"
proof -
  have d3: "is_digit19 0x33" by (simp add: is_digit19_def)
  have d1: "is_digit19 0x31" by (simp add: is_digit19_def)
  have d2: "is_digit19 0x32" by (simp add: is_digit19_def)
  have v: "digit_value 0x33 = 3" by (simp add: digit_value_def)
  have a: "parse_join (js ''+3 Amy Bob'') = Some (3, js ''Amy Bob'')"
    using sigil_parsing [of "0x33" "js '' Amy Bob''"] d3 v
    by (simp add: js_def trim_def is_space_def is_line_terminator_def)
  have b: "parse_leave (js ''-1 Amy'') = Some (js ''Amy'')"
    using sigil_parsing [of "0x31" "js '' Amy''"] d1
    by (simp add: js_def trim_def is_space_def is_line_terminator_def)
  have c: "parse_join (js ''Amy +3'') = Some (3, js ''Amy'')"
    using sigil_parsing [of "0x33" "[]" "[]" 0 "[]" "js ''Amy ''"] d3 v
    by (simp add: js_def trim_def is_space_def is_line_terminator_def)
  have e: "parse_leave (js ''Amy-2'') = Some (js ''Amy'')"
    using sigil_parsing [of "0x32" "[]" "[]" 0 "[]" "js ''Amy''"] d2
    by (simp add: js_def trim_def is_space_def is_line_terminator_def)
  show ?thesis using a b c e by simp
qed

text \<open>
  The claim as it was stated says that a text with a multi-digit count such as 10 does
  not match the join form. The text \<open>+10\<close> does match: the start form reads the sigil
  and the digit 1, and the 0 is the name.
\<close>

theorem sigil_multi_digit_counterexample:
  "parse_join (js ''+10'') = Some (1, js ''0'')"
  by (simp add: parse_join_def sigil_start_def js_def is_digit19_def digit_value_def
        trim_def is_space_def is_line_terminator_def)

section \<open>The scheduler\<close>













section \<open>The invariant of the lists under the commands\<close>

lemma registry_ok_update:
  "registry_ok games \<Longrightarrow> game_ok g \<Longrightarrow> registry_ok (AList.update gid g games)"
  by (simp add: registry_ok_def update_conv')

lemma registry_ok_delete:
  "registry_ok games \<Longrightarrow> registry_ok (AList.delete gid games)"
  by (simp add: registry_ok_def delete_conv')

lemma registry_ok_lookup:
  "registry_ok games \<Longrightarrow> map_of games gid = Some g \<Longrightarrow> game_ok g"
  by (simp add: registry_ok_def)

lemma ok_update_from:
  assumes "registry_ok games" and "map_of games gid = Some g" and "game_ok g \<Longrightarrow> game_ok g'"
  shows "registry_ok (AList.update gid g' games)"
  using assms registry_ok_lookup registry_ok_update by blast

lemma list_all_update:
  "list_all P xs \<Longrightarrow> P x \<Longrightarrow> list_all P (xs[i := x])"
  using set_update_subset_insert [of xs i x] by (auto simp: list_all_iff)

lemma game_ok_sections:
  "game_ok g \<Longrightarrow> map list ss = map list (sections g) \<Longrightarrow> game_ok (g\<lparr>sections := ss\<rparr>)"
proof -
  assume a: "game_ok g" and m: "map list ss = map list (sections g)"
  have "list_all section_ok ss = list_all (\<lambda>l. distinct (filter (\<lambda>n. n \<noteq> ANON) l)) (map list ss)"
    by (simp add: list_all_iff section_ok_def)
  also have "\<dots> = list_all section_ok (sections g)"
    unfolding m by (simp add: list_all_iff section_ok_def)
  finally show ?thesis using a by (simp add: game_ok_def)
qed

lemma game_ok_touch [simp]: "game_ok (touchGame now g) = game_ok g"
  by (simp add: game_ok_def touchGame_def)

lemma section_ok_push:
  "section_ok s \<Longrightarrow> name = ANON \<or> name \<notin> set (list s) \<Longrightarrow> section_ok (s\<lparr>list := list s @ [name]\<rparr>)"
  by (auto simp: section_ok_def)

lemma game_ok_addToList: "game_ok g \<Longrightarrow> game_ok (addToList idx name g)"
proof -
  assume a: "game_ok g"
  show ?thesis
  proof (cases "idx < length (sections g)")
    case False
    then show ?thesis using a by (simp add: addToList_def)
  next
    case True
    then have s: "section_ok (sections g ! idx)" using a by (simp add: game_ok_def list_all_length)
    have "name = ANON \<or> name \<notin> set (list (sections g ! idx)) \<Longrightarrow>
          list_all section_ok ((sections g)[idx := (sections g ! idx)\<lparr>list := list (sections g ! idx) @ [name]\<rparr>])"
      using a section_ok_push [OF s, of name] by (intro list_all_update) (simp_all add: game_ok_def)
    then show ?thesis using a True by (auto simp: addToList_def game_ok_def)
  qed
qed

lemma game_ok_fold_addToList: "game_ok g \<Longrightarrow> game_ok (fold (addToList idx) names g)"
  by (induction names arbitrary: g) (simp_all add: game_ok_addToList)

lemma distinct_filter_remove1:
  "distinct (filter P l) \<Longrightarrow> distinct (filter P (remove1 x l))"
proof (induction l)
  case Nil
  then show ?case by simp
next
  case (Cons a l)
  have sub: "set (remove1 x l) \<subseteq> set l" by (rule set_remove1_subset)
  show ?case using Cons sub by (auto split: if_splits)
qed

lemma game_ok_removeFromList: "game_ok g \<Longrightarrow> game_ok (removeFromList name g)"
  by (auto simp: game_ok_def removeFromList_def list_all_iff section_ok_def distinct_filter_remove1)

lemma removeAnon_loop_filter:
  "n \<le> length l \<Longrightarrow> filter (\<lambda>x. x \<noteq> ANON) (removeAnon_loop l n) = filter (\<lambda>x. x \<noteq> ANON) l"
proof (induction n)
  case 0
  then show ?case by simp
next
  case (Suc i)
  show ?case
  proof (cases "l ! i = ANON")
    case True
    have "l = take i l @ l ! i # drop (Suc i) l" using Suc.prems by (simp add: id_take_nth_drop)
    then have "filter (\<lambda>x. x \<noteq> ANON) l =
               filter (\<lambda>x. x \<noteq> ANON) (take i l) @ filter (\<lambda>x. x \<noteq> ANON) (drop (Suc i) l)"
      using True by (metis (mono_tags, lifting) filter.simps(2) filter_append)
    then show ?thesis using True by simp
  next
    case False
    then show ?thesis using Suc by simp
  qed
qed

lemma game_ok_removeAnon: "game_ok g \<Longrightarrow> game_ok (removeAnon g)"
  by (auto simp: game_ok_def removeAnon_def section_ok_def removeAnon_loop_filter split: list.splits)

lemma join_keeps_ok:
  assumes "registry_ok games"
  shows "registry_ok (snd (handle_join now who gid count content games))"
proof (cases "map_of games gid")
  case None
  then show ?thesis using assms by (simp add: handle_join_def)
next
  case (Some g)
  have "registry_ok (AList.update gid (touchGame now (fold (addToList 0) names g)) games)" for names
    using assms Some by (rule ok_update_from) (simp add: game_ok_fold_addToList)
  then show ?thesis using assms Some
    by (simp add: handle_join_def Let_def split: option.splits list.splits)
qed

lemma leave_keeps_ok:
  assumes "registry_ok games"
  shows "registry_ok (snd (handle_leave now who gid removeName games))"
proof (cases "map_of games gid")
  case None
  then show ?thesis using assms by (simp add: handle_leave_def)
next
  case (Some g)
  have a: "registry_ok (AList.update gid (removeFromList nm g) games)" for nm
    using assms Some by (rule ok_update_from) (simp add: game_ok_removeFromList)
  have b: "registry_ok (AList.update gid (removeAnon g) games)"
    using assms Some by (rule ok_update_from) (simp add: game_ok_removeAnon)
  show ?thesis using assms Some a b
    by (simp add: handle_leave_def Let_def split: option.splits)
qed

lemma bulk_keeps_ok:
  assumes "registry_ok games"
  shows "registry_ok (snd (handle_bulk gid input games))"
proof (cases "map_of games gid")
  case None
  then show ?thesis using assms by (simp add: handle_bulk_def)
next
  case (Some g)
  have "registry_ok (AList.update gid (fold (addToList 0) names g) games)" for names
    using assms Some by (rule ok_update_from) (simp add: game_ok_fold_addToList)
  then show ?thesis using assms Some
    by (simp add: handle_bulk_def Let_def split: option.splits list.splits)
qed

lemma create_keeps_ok:
  "registry_ok games \<Longrightarrow>
   registry_ok (snd (handle_create now gid ttl lim bk names anon sched schedInput welcome games))"
  by (auto simp: handle_create_def Let_def game_ok_def section_ok_def
        intro!: registry_ok_update split: option.splits)

lemma modify_keeps_ok:
  assumes "registry_ok games"
  shows "registry_ok (snd (handle_modify now gid newTitle newLimit newBackup newList games))"
proof (cases "map_of games gid")
  case None
  then show ?thesis using assms by (simp add: handle_modify_def)
next
  case (Some g)
  then have ok: "game_ok g" using assms by (rule registry_ok_lookup [rotated])
  show ?thesis
  proof (cases "sections g")
    case Nil
    then show ?thesis using assms Some by (simp add: handle_modify_def)
  next
    case (Cons s rest)
    then have s: "section_ok s" "list_all section_ok rest" using ok by (simp_all add: game_ok_def)
    show ?thesis using assms Some Cons s
      by (auto simp: handle_modify_def Let_def game_ok_def section_ok_def touchGame_def
            intro!: registry_ok_update split: option.splits)
  qed
qed

lemma config_keeps_ok:
  assumes "registry_ok games"
    and "handle_config now gid idx p0 p1 p2 p3 games = Some r"
  shows "registry_ok (snd r)"
proof (cases "map_of games gid")
  case None
  then show ?thesis using assms by (auto simp: handle_config_def)
next
  case (Some g)
  then have ok: "list_all section_ok (sections g)"
    using assms(1) registry_ok_lookup by (auto simp: game_ok_def)
  then have nth: "idx < length (sections g) \<Longrightarrow> section_ok (sections g ! idx)"
    by (simp add: list_all_length)
  have upd: "\<And>sec. section_ok sec \<Longrightarrow> list_all section_ok ((sections g)[idx := sec])"
    using ok by (rule list_all_update)
  show ?thesis using assms Some ok nth upd
    by (auto simp: handle_config_def Let_def game_ok_def section_ok_def touchGame_def
          intro!: registry_ok_update split: if_splits)
qed

lemma config_returns:
  assumes "idx = 0 \<or> (idx = 1 \<and> (\<forall>g. map_of games gid = Some g \<longrightarrow> sections g \<noteq> []))"
  shows "\<exists>r. handle_config now gid idx p0 p1 p2 p3 games = Some r"
proof (cases "map_of games gid")
  case None
  then show ?thesis by (simp add: handle_config_def)
next
  case (Some g)
  then have "idx \<le> length (sections g)" using assms by (cases "sections g") auto
  then show ?thesis using Some by (auto simp: handle_config_def Let_def)
qed

lemma clear_keeps_ok:
  assumes "registry_ok games"
  shows "registry_ok (snd (handle_clear now gid games))"
proof (cases "map_of games gid")
  case None
  then show ?thesis using assms by (simp add: handle_clear_def)
next
  case (Some g)
  have "game_ok (touchGame now (g\<lparr>sections := map (\<lambda>s. s\<lparr>list := []\<rparr>) (sections g)\<rparr>))"
    by (auto simp: game_ok_def section_ok_def list_all_iff touchGame_def)
  then show ?thesis using assms Some by (simp add: handle_clear_def Let_def registry_ok_update)
qed

lemma end_delete_keep_ok:
  "registry_ok games \<Longrightarrow> registry_ok (snd (handle_end gid games))"
  "registry_ok games \<Longrightarrow> registry_ok (snd (handle_delete gid games))"
  by (simp_all add: handle_end_def handle_delete_def registry_ok_delete)

section \<open>The maps of the recovery\<close>

lemma get2_ensure2:
  "get2 (ensure2 m g i d) g' i' =
     (if g' = g \<and> i' = i \<and> get2 m g i = None then Some d else get2 m g' i')"
  by (auto simp: get2_def ensure2_def update_conv' split: option.splits)

lemma map_of_ensure2: "map_of (ensure2 m g i d) g \<noteq> None"
  by (auto simp: ensure2_def update_conv' split: option.splits)

lemma get2_put2:
  "map_of m g \<noteq> None \<Longrightarrow>
   get2 (put2 m g i v) g' i' = (if g' = g \<and> i' = i then Some v else get2 m g' i')"
  by (auto simp: get2_def put2_def update_conv' split: option.splits)

lemma keys_ensure2: "distinct (map fst m) \<Longrightarrow> distinct (map fst (ensure2 m g i d))"
  by (auto simp: ensure2_def distinct_update split: option.splits)

lemma keys_put2: "distinct (map fst m) \<Longrightarrow> distinct (map fst (put2 m g i v))"
  by (auto simp: put2_def distinct_update split: option.splits)

text \<open>What one data line does to \<^verbatim>\<open>byGid\<close>: nothing, or one name pushed on one list.\<close>

lemma restore_row_lists:
  "fst (restore_row hdr rawLine st) = fst st \<or>
   (\<exists>g i name. fst (restore_row hdr rawLine st) =
       (let byGid = ensure2 (fst st) g i [];
            l = (case get2 byGid g i of None \<Rightarrow> [] | Some l \<Rightarrow> l)
        in if name \<in> set l then byGid else put2 byGid g i (l @ [name])))"
proof -
  let ?line = "trim rawLine"
  let ?cols = "parseCsvLine ?line"
  let ?gid = "trim (col ?cols (idxGid hdr))"
  let ?name = "trim (col ?cols (idxName hdr))"
  show ?thesis
  proof (cases "?line = [] \<or> ?gid = [] \<or> ?name = []")
    case True
    then have "restore_row hdr rawLine st = st" by (auto simp: restore_row_def Let_def)
    then show ?thesis by simp
  next
    case False
    then show ?thesis
      unfolding restore_row_def Let_def by (intro disjI2 exI [of _ ?gid] exI [of _ ?name]) auto
  qed
qed

section \<open>The invariant of the lists under the recovery\<close>

lemma lists_distinct_push:
  assumes "lists_distinct m"
  shows "lists_distinct
     (let byGid = ensure2 m g i [];
          l = (case get2 byGid g i of None \<Rightarrow> [] | Some l \<Rightarrow> l)
      in if name \<in> set l then byGid else put2 byGid g i (l @ [name]))"
proof -
  let ?b = "ensure2 m g i []"
  let ?l = "case get2 ?b g i of None \<Rightarrow> [] | Some l \<Rightarrow> l"
  have b: "lists_distinct ?b"
    using assms by (auto simp: lists_distinct_def keys_ensure2 get2_ensure2 split: if_splits)
  then have l: "distinct ?l" by (auto simp: lists_distinct_def split: option.splits)
  have "name \<notin> set ?l \<Longrightarrow> lists_distinct (put2 ?b g i (?l @ [name]))"
    using b l by (auto simp: lists_distinct_def keys_put2 get2_put2 map_of_ensure2 split: if_splits)
  then show ?thesis using b by (simp add: Let_def)
qed

lemma restore_row_distinct:
  "lists_distinct (fst st) \<Longrightarrow> lists_distinct (fst (restore_row hdr rawLine st))"
  using restore_row_lists [of hdr rawLine st] lists_distinct_push [of "fst st"] by auto

lemma restore_fold_distinct:
  "lists_distinct (fst st) \<Longrightarrow> lists_distinct (fst (fold (restore_row hdr) ls st))"
  by (induction ls arbitrary: st) (simp_all add: restore_row_distinct)

lemma restored_game_ok:
  assumes "\<forall>i l. map_of sectionMap i = Some l \<longrightarrow> distinct l"
  shows "game_ok (restored_game now metaByGid gid sectionMap)"
  using assms
  by (auto simp: game_ok_def restored_game_def restored_section_def section_ok_def list_all_iff Let_def
        split: option.splits)

lemma fold_update_ok:
  "(\<forall>(k, v) \<in> set al. game_ok (f k v)) \<Longrightarrow> registry_ok acc \<Longrightarrow>
   registry_ok (fold (\<lambda>(k, v) gs. AList.update k (f k v) gs) al acc)"
  by (induction al arbitrary: acc) (auto simp: registry_ok_update)

lemma restore_keeps_ok:
  assumes "registry_ok games"
  shows "registry_ok (snd (restoreGamesFromCsv content now games))"
proof -
  have build: "registry_ok (fold (\<lambda>(gid, sectionMap) gs.
                   AList.update gid (restored_game now (snd (fold (restore_row hdr) ls ([], []))) gid sectionMap) gs)
                 (fst (fold (restore_row hdr) ls ([], []))) games)" for hdr ls
  proof -
    let ?st = "fold (restore_row hdr) ls ([], [])"
    have "lists_distinct (fst (([], []) :: jsstring list map2 \<times> section_meta map2))"
      by (simp add: lists_distinct_def get2_def)
    then have d: "lists_distinct (fst ?st)" by (rule restore_fold_distinct)
    have "\<forall>(k, v) \<in> set (fst ?st). game_ok (restored_game now (snd ?st) k v)"
    proof (clarify)
      fix k v assume kv: "(k, v) \<in> set (fst ?st)"
      then have "map_of (fst ?st) k = Some v" using d by (simp add: lists_distinct_def)
      then have "\<forall>i l. map_of v i = Some l \<longrightarrow> distinct l"
        using d by (auto simp: lists_distinct_def get2_def split: option.splits)
      then show "game_ok (restored_game now (snd ?st) k v)" by (rule restored_game_ok)
    qed
    then show ?thesis using assms by (rule fold_update_ok)
  qed
  show ?thesis
  proof (cases "games = []")
    case False
    then show ?thesis using assms by (simp add: restoreGamesFromCsv_def)
  next
    case True
    have e: "registry_ok []" by (simp add: registry_ok_def)
    show ?thesis using build e unfolding True
      by (auto simp: restoreGamesFromCsv_def Let_def split: option.splits)
  qed
qed

text \<open>
  C4. Every command keeps the registry well formed, that is, keeps the names other than
  the placeholder pairwise distinct within every section's list: game creation, join,
  leave, bulk list, modify (also when it rejects the new list), section
  reconfiguration, clear, end and delete, and the recovery from the snapshot text,
  whatever that text is. The reconfiguration of section 0, and of section 1 of a game
  that has a section, always completes.
\<close>

theorem lists_stay_distinct:
  assumes "registry_ok games"
  shows "registry_ok (snd (handle_create now gid ttl lim bk names anon sched schedInput welcome games))
       \<and> registry_ok (snd (handle_join now who gid count content games))
       \<and> registry_ok (snd (handle_leave now who gid removeName games))
       \<and> registry_ok (snd (handle_bulk gid input games))
       \<and> registry_ok (snd (handle_modify now gid newTitle newLimit newBackup newList games))
       \<and> (\<forall>r. handle_config now gid idx p0 p1 p2 p3 games = Some r \<longrightarrow> registry_ok (snd r))
       \<and> (idx = 0 \<or> (idx = 1 \<and> (\<forall>g. map_of games gid = Some g \<longrightarrow> sections g \<noteq> [])) \<longrightarrow>
            (\<exists>r. handle_config now gid idx p0 p1 p2 p3 games = Some r))
       \<and> registry_ok (snd (handle_clear now gid games))
       \<and> registry_ok (snd (handle_end gid games))
       \<and> registry_ok (snd (handle_delete gid games))
       \<and> registry_ok (snd (restoreGamesFromCsv content now games))"
  using assms create_keeps_ok join_keeps_ok leave_keeps_ok bulk_keeps_ok modify_keeps_ok
    config_keeps_ok config_returns clear_keeps_ok end_delete_keep_ok restore_keeps_ok
  by (intro conjI allI impI) blast+

theorem lists_stay_distinct_witness:
  "registry_ok (snd (handle_join 5 ex_who (js ''C1'') 2 (js ''B C'')
       [(js ''C1'', ex_game [ex_section [js ''A'', ANON, ANON]])]))
   \<and> registry_ok (snd (handle_leave 5 ex_who (js ''C1'') (js ''A'')
       [(js ''C1'', ex_game [ex_section [js ''A'', ANON, ANON]])]))
   \<and> registry_ok (snd (restoreGamesFromCsv (js ''gid,sectionIdx,name'' @ [LF] @ js ''C1,0,A'') 5 []))"
proof -
  let ?games = "[(js ''C1'', ex_game [ex_section [js ''A'', ANON, ANON]])]"
  have a: "registry_ok ?games"
    by (simp add: registry_ok_def game_ok_def section_ok_def ex_game_def ex_section_def js_def ANON_def)
  have b: "registry_ok []" by (simp add: registry_ok_def)
  have j: "registry_ok (snd (handle_join 5 ex_who (js ''C1'') 2 (js ''B C'') ?games))"
    and l: "registry_ok (snd (handle_leave 5 ex_who (js ''C1'') (js ''A'') ?games))"
    using lists_stay_distinct [OF a, where now = 5 and gid = "js ''C1''" and who = ex_who
        and count = 2 and content = "js ''B C''" and removeName = "js ''A''"]
    by simp_all
  have r: "registry_ok (snd (restoreGamesFromCsv (js ''gid,sectionIdx,name'' @ [LF] @ js ''C1,0,A'') 5 []))"
    using lists_stay_distinct [OF b, where content = "js ''gid,sectionIdx,name'' @ [LF] @ js ''C1,0,A''" and now = 5]
    by simp
  show ?thesis using j l r by simp
qed

section \<open>Numbers written and read back\<close>

lemma digit_char_props:
  "d < 10 \<Longrightarrow> is_digit (digit_char d) \<and> unat (digit_char d) = 48 + d"
proof -
  assume d: "d < 10"
  have "unat (of_nat (48 + d) :: 16 word) = (48 + d) mod 2 ^ LENGTH(16)"
    by (rule unat_of_nat)
  also have "\<dots> = 48 + d" using d by simp
  finally have u: "unat (of_nat (48 + d) :: 16 word) = 48 + d" .
  have "is_digit (digit_char d)"
    unfolding is_digit_def digit_char_def word_le_nat_alt u using d by simp
  then show ?thesis using u by (simp add: digit_char_def)
qed

lemma decimal_digits: "list_all is_digit (decimal n) \<and> decimal n \<noteq> []"
proof (induction n rule: decimal.induct)
  case (1 n)
  show ?case
  proof (cases "n < 10")
    case True
    then show ?thesis using digit_char_props [of n] by (simp add: decimal.simps [of n])
  next
    case False
    then show ?thesis using 1 digit_char_props [of "n mod 10"] by (simp add: decimal.simps [of n])
  qed
qed

lemma digits_value_snoc: "digits_value (ds @ [c]) = 10 * digits_value ds + (unat c - 48)"
  by (simp add: digits_value_def)

lemma digits_value_decimal: "digits_value (decimal n) = n"
proof (induction n rule: decimal.induct)
  case (1 n)
  show ?case
  proof (cases "n < 10")
    case True
    then show ?thesis using digit_char_props [of n]
      by (simp add: decimal.simps [of n] digits_value_def)
  next
    case False
    then have "digits_value (decimal (n div 10)) = n div 10" using 1 by simp
    then show ?thesis using False digit_char_props [of "n mod 10"]
      by (simp add: decimal.simps [of n] digits_value_snoc)
  qed
qed

lemma length_decimal: "n < 10 ^ d \<Longrightarrow> 0 < d \<Longrightarrow> length (decimal n) \<le> d"
proof (induction n arbitrary: d rule: decimal.induct)
  case (1 n)
  show ?case
  proof (cases "n < 10")
    case True
    then show ?thesis using "1.prems" by (simp add: decimal.simps [of n])
  next
    case False
    obtain d' where d': "d = Suc d'" using "1.prems"(2) by (cases d) auto
    have "d' \<noteq> 0" using False "1.prems"(1) d' by (cases d') auto
    moreover have "n div 10 < 10 ^ d'" using "1.prems"(1) d' by (simp add: less_mult_imp_div_less)
    ultimately have "length (decimal (n div 10)) \<le> d'" using "1.IH" [OF False, of d'] by simp
    then show ?thesis using False d' by (simp add: decimal.simps [of n])
  qed
qed

lemma is_digit_plain: "is_digit c \<Longrightarrow> \<not> is_space c \<and> c \<noteq> MINUS \<and> c \<noteq> PLUS \<and> c \<noteq> CR \<and> c \<noteq> LF \<and> c \<noteq> DQ \<and> c \<noteq> COMMA"
  by (auto simp: is_digit_def is_space_def word_le_nat_alt)

lemma decimal_cases: "\<exists>c cs. decimal n = c # cs \<and> is_digit c"
  using decimal_digits [of n] by (cases "decimal n") auto

lemma takeWhile_all: "list_all P xs \<Longrightarrow> takeWhile P xs = xs"
  by (induction xs) auto

lemma parseInt10_digits:
  assumes "list_all is_digit ds" "ds \<noteq> []" "to_number (digits_value ds) < 2 ^ 1024"
  shows "parseInt10 ds = Some (int (to_number (digits_value ds)))"
    and "parseInt10 (MINUS # ds) = Some (- int (to_number (digits_value ds)))"
proof -
  obtain c cs where c: "ds = c # cs" using assms(2) by (cases ds) auto
  then have dc: "is_digit c" using assms(1) by simp
  have tw: "takeWhile is_digit ds = ds" using assms(1) by (rule takeWhile_all)
  have dw: "dropWhile is_space ds = ds" using c dc is_digit_plain by simp
  have sp: "\<not> is_space MINUS" by (simp add: is_space_def)
  have fin: "(2 ^ 1024 \<le> to_number (digits_value ds)) = False" using assms(3) by simp
  have "parseInt10 ds =
        (if takeWhile is_digit ds = [] \<or> 2 ^ 1024 \<le> to_number (digits_value (takeWhile is_digit ds)) then None
         else Some (int (to_number (digits_value (takeWhile is_digit ds)))))"
    unfolding parseInt10_def Let_def dw using c is_digit_plain [OF dc] by simp
  then show "parseInt10 ds = Some (int (to_number (digits_value ds)))"
    unfolding tw fin using assms(2) by simp
  have "parseInt10 (MINUS # ds) =
        (if takeWhile is_digit ds = [] \<or> 2 ^ 1024 \<le> to_number (digits_value (takeWhile is_digit ds)) then None
         else Some (- int (to_number (digits_value (takeWhile is_digit ds)))))"
    unfolding parseInt10_def Let_def using sp by simp
  then show "parseInt10 (MINUS # ds) = Some (- int (to_number (digits_value ds)))"
    unfolding tw fin using assms(2) by simp
qed

lemma to_number_small: "n < 2 ^ 53 \<Longrightarrow> to_number n = n"
  by (simp add: to_number_def)

lemma shortest_rounds: "to_number x = x \<Longrightarrow> to_number (shortest_from x nd k) = x"
proof (induction x nd k rule: shortest_from.induct)
  case (1 x nd k)
  show ?case
  proof (cases "nd \<le> k")
    case True
    then show ?thesis using "1.prems" by (simp add: shortest_from.simps [of x nd k])
  next
    case False
    define p where "p = (10::nat) ^ (nd - k)"
    define lo where "lo = (x div p) * p"
    define hi where "hi = lo + p"
    have s: "shortest_from x nd k =
       (if to_number lo = x \<and> to_number hi = x then
          (if x - lo < hi - x \<or> (x - lo = hi - x \<and> even (x div p)) then lo else hi)
        else if to_number lo = x then lo
        else if to_number hi = x then hi
        else shortest_from x nd (k + 1))"
      using False unfolding p_def lo_def hi_def
      by (subst shortest_from.simps) (simp add: Let_def)
    have IH: "\<not> (to_number lo = x \<and> to_number hi = x) \<Longrightarrow> to_number lo \<noteq> x \<Longrightarrow> to_number hi \<noteq> x \<Longrightarrow>
              to_number (shortest_from x nd (k + 1)) = x"
      using "1.IH" [OF False, of p lo hi] "1.prems" unfolding p_def lo_def hi_def by simp
    show ?thesis unfolding s using IH by auto
  qed
qed

lemma to_number_1e21: "to_number (10 ^ 21) = 10 ^ 21"
  by (simp add: to_number_def bit_len.simps Let_def)

lemma shortest_below:
  "to_number x = x \<Longrightarrow> x < 10 ^ 21 \<Longrightarrow> nd \<le> 21 \<Longrightarrow> shortest_from x nd k < 10 ^ 21"
proof (induction x nd k rule: shortest_from.induct)
  case (1 x nd k)
  show ?case
  proof (cases "nd \<le> k")
    case True
    then show ?thesis using "1.prems" by (simp add: shortest_from.simps [of x nd k])
  next
    case False
    define p where "p = (10::nat) ^ (nd - k)"
    define lo where "lo = (x div p) * p"
    define hi where "hi = lo + p"
    have s: "shortest_from x nd k =
       (if to_number lo = x \<and> to_number hi = x then
          (if x - lo < hi - x \<or> (x - lo = hi - x \<and> even (x div p)) then lo else hi)
        else if to_number lo = x then lo
        else if to_number hi = x then hi
        else shortest_from x nd (k + 1))"
      using False unfolding p_def lo_def hi_def
      by (subst shortest_from.simps) (simp add: Let_def)
    have IH: "\<not> (to_number lo = x \<and> to_number hi = x) \<Longrightarrow> to_number lo \<noteq> x \<Longrightarrow> to_number hi \<noteq> x \<Longrightarrow>
              shortest_from x nd (k + 1) < 10 ^ 21"
      using "1.IH" [OF False, of p lo hi] "1.prems" unfolding p_def lo_def hi_def by simp
    have lo: "lo < 10 ^ 21"
    proof -
      have "lo \<le> x" unfolding lo_def by simp
      then show ?thesis using "1.prems"(2) by simp
    qed
    have hi: "hi < 10 ^ 21" if h: "to_number hi = x"
    proof -
      define m where "m = (10::nat) ^ (21 - (nd - k))"
      have pm: "p * m = 10 ^ 21"
        unfolding p_def m_def using "1.prems"(3) by (simp add: power_add [symmetric])
      have p0: "0 < p" unfolding p_def by simp
      have "x < m * p" using "1.prems"(2) pm by (simp add: mult.commute)
      then have "x div p < m" using p0 by (simp add: less_mult_imp_div_less)
      then have "x div p + 1 \<le> m" by simp
      then have "(x div p + 1) * p \<le> m * p" by (rule mult_le_mono1)
      then have le: "hi \<le> 10 ^ 21" unfolding hi_def lo_def using pm by (simp add: mult.commute)
      have "hi \<noteq> 10 ^ 21"
      proof
        assume "hi = 10 ^ 21"
        then have "x = 10 ^ 21" using h to_number_1e21 by simp
        then show False using "1.prems"(2) by simp
      qed
      then show ?thesis using le by simp
    qed
    show ?thesis unfolding s using IH lo hi by auto
  qed
qed

lemma show_nat_plain:
  assumes "to_number n = n" "n < 10 ^ 21"
  shows "\<exists>v. show_nat n = decimal v \<and> to_number v = n"
proof (cases "n < 2 ^ 53")
  case True
  then show ?thesis using assms(1) by (auto simp: show_nat_def)
next
  case False
  define v where "v = shortest_from n (length (decimal n)) 1"
  have nd: "length (decimal n) \<le> 21" using assms(2) by (intro length_decimal) simp_all
  have r: "to_number v = n" unfolding v_def using assms(1) by (rule shortest_rounds)
  have "v < 10 ^ 21" unfolding v_def using assms nd by (rule shortest_below)
  then have l: "length (decimal v) \<le> 21" by (intro length_decimal) simp_all
  have "(10::nat) ^ 21 < 2 ^ 1024" by simp
  then have fin: "\<not> (2::nat) ^ 1024 \<le> n" using assms(2) by linarith
  have "show_nat n = decimal v"
    using False fin l unfolding show_nat_def assms(1) Let_def v_def by simp
  then show ?thesis using r by blast
qed

lemma show_nat_small: "n < 2 ^ 53 \<Longrightarrow> show_nat n = decimal n"
  by (simp add: show_nat_def)

lemma show_int_plain:
  assumes "plain_number i"
  shows "\<exists>v. show_int i = (if i < 0 then MINUS # decimal v else decimal v) \<and> to_number v = nat \<bar>i\<bar>"
proof -
  have a: "to_number (nat \<bar>i\<bar>) = nat \<bar>i\<bar>" using assms by (simp add: plain_number_def)
  have "nat \<bar>i\<bar> < nat (10 ^ 21)" using assms unfolding plain_number_def by linarith
  then have b: "nat \<bar>i\<bar> < 10 ^ 21" by (simp add: nat_power_eq)
  obtain v where v: "show_nat (nat \<bar>i\<bar>) = decimal v" "to_number v = nat \<bar>i\<bar>"
    using show_nat_plain [OF a b] by blast
  show ?thesis
  proof (cases "i < 0")
    case True
    then have "nat (- i) = nat \<bar>i\<bar>" by simp
    then show ?thesis using True v by (auto simp: show_int_def)
  next
    case False
    then have "nat i = nat \<bar>i\<bar>" by simp
    then show ?thesis using False v by (auto simp: show_int_def)
  qed
qed

lemma plain_number_finite: "plain_number i \<Longrightarrow> nat \<bar>i\<bar> < 2 ^ 1024"
proof -
  assume "plain_number i"
  then have "nat \<bar>i\<bar> < nat (10 ^ 21)" unfolding plain_number_def by linarith
  then have "nat \<bar>i\<bar> < 10 ^ 21" by (simp add: nat_power_eq)
  moreover have "(10::nat) ^ 21 < 2 ^ 1024" by simp
  ultimately show ?thesis by linarith
qed

lemma parseInt10_show_int: "plain_number i \<Longrightarrow> parseInt10 (show_int i) = Some i"
proof -
  assume p: "plain_number i"
  obtain v where v: "show_int i = (if i < 0 then MINUS # decimal v else decimal v)"
    "to_number v = nat \<bar>i\<bar>"
    using show_int_plain [OF p] by blast
  have fin: "to_number (digits_value (decimal v)) < 2 ^ 1024"
    using plain_number_finite [OF p] v(2) by (simp add: digits_value_decimal)
  note pd = parseInt10_digits [of "decimal v", OF _ _ fin]
  show ?thesis
  proof (cases "i < 0")
    case True
    then show ?thesis using pd(2) decimal_digits [of v] v by (simp add: digits_value_decimal)
  next
    case False
    then show ?thesis using pd(1) decimal_digits [of v] v by (simp add: digits_value_decimal)
  qed
qed

lemma parseInt10_index: "idx < 2 ^ 53 \<Longrightarrow> parseInt10 (show_nat idx) = Some (int idx)"
proof -
  assume i: "idx < 2 ^ 53"
  have "(2::nat) ^ 53 < 2 ^ 1024" by simp
  then have "to_number (digits_value (decimal idx)) < 2 ^ 1024"
    using i by (simp add: digits_value_decimal to_number_small)
  then show ?thesis
    using parseInt10_digits(1) [of "decimal idx"] decimal_digits [of idx] i
    by (simp add: digits_value_decimal to_number_small show_nat_small)
qed

lemma show_int_chars:
  assumes "plain_number i"
  shows "show_int i \<noteq> []" and "\<forall>c\<in>set (show_int i). is_digit c \<or> c = MINUS"
    and "is_digit (last (show_int i))" and "\<not> is_space (hd (show_int i))"
proof -
  obtain v where v: "show_int i = (if i < 0 then MINUS # decimal v else decimal v)"
    using show_int_plain [OF assms] by blast
  have d: "list_all is_digit (decimal v)" "decimal v \<noteq> []" using decimal_digits by simp_all
  show "show_int i \<noteq> []" using v d(2) by simp
  show "\<forall>c\<in>set (show_int i). is_digit c \<or> c = MINUS" using v d(1) by (auto simp: list_all_iff)
  have "is_digit (last (decimal v))" using d last_in_set by (fastforce simp: list_all_iff)
  then show "is_digit (last (show_int i))" using v d(2) by simp
  obtain c cs where "decimal v = c # cs" "is_digit c" using decimal_cases by blast
  then show "\<not> is_space (hd (show_int i))" using v is_digit_plain by (auto simp: is_space_def)
qed

lemma show_nat_chars:
  assumes "idx < 2 ^ 53"
  shows "show_nat idx \<noteq> []" and "\<forall>c\<in>set (show_nat idx). is_digit c"
  using decimal_digits [of idx] assms by (simp_all add: show_nat_small list_all_iff)

lemma trim_id:
  "s \<noteq> [] \<Longrightarrow> \<not> is_space (hd s) \<Longrightarrow> \<not> is_space (last s) \<Longrightarrow> trim s = s"
proof -
  assume a: "s \<noteq> []" "\<not> is_space (hd s)" "\<not> is_space (last s)"
  then have "dropWhile is_space s = s" by (cases s) auto
  moreover have "dropWhile is_space (rev s) = rev s"
    using a by (cases "rev s") (auto simp: last_rev [symmetric] hd_rev)
  ultimately show ?thesis by (simp add: trim_def)
qed

lemma trim_show_nat: "idx < 2 ^ 53 \<Longrightarrow> trim (show_nat idx) = show_nat idx"
proof -
  assume i: "idx < 2 ^ 53"
  obtain c cs where c: "decimal idx = c # cs" "is_digit c" using decimal_cases by blast
  have "is_digit (last (decimal idx))"
    using decimal_digits [of idx] last_in_set by (fastforce simp: list_all_iff)
  then show ?thesis unfolding show_nat_small [OF i] using c is_digit_plain by (intro trim_id) auto
qed

lemma trim_show_int: "plain_number i \<Longrightarrow> trim (show_int i) = show_int i"
  using show_int_chars [of i] is_digit_plain by (intro trim_id) auto

section \<open>The text that the store gives back\<close>

lemma surrogate_not_replacement:
  "is_high_surrogate c \<or> is_low_surrogate c \<Longrightarrow> c \<noteq> 0xFFFD"
  by (auto simp: is_high_surrogate_def is_low_surrogate_def word_le_nat_alt)

lemma utf8_text_head:
  "\<not> is_high_surrogate c \<Longrightarrow> \<not> is_low_surrogate c \<Longrightarrow> utf8_text (c # s) = c # utf8_text s"
  by (cases s) simp_all

lemma utf8_text_plain:
  "\<forall>c\<in>set s. \<not> is_high_surrogate c \<and> \<not> is_low_surrogate c \<Longrightarrow> utf8_text s = s"
  by (induction s) (simp_all add: utf8_text_head)

lemma utf8_text_append: "utf8_text a = a \<Longrightarrow> utf8_text (a @ b) = a @ utf8_text b"
proof (induction a rule: utf8_text.induct)
  case 1
  then show ?case by simp
next
  case (2 c)
  then have "\<not> is_high_surrogate c \<and> \<not> is_low_surrogate c"
    using surrogate_not_replacement [of c] by (auto split: if_splits)
  then show ?case by (simp add: utf8_text_head)
next
  case (3 c d rest)
  show ?case
  proof (cases "is_high_surrogate c \<and> is_low_surrogate d")
    case True
    then have "utf8_text rest = rest" using "3.prems" by simp
    then show ?thesis using True "3.IH"(1) by simp
  next
    case False
    then have n: "\<not> is_high_surrogate c \<and> \<not> is_low_surrogate c"
      using "3.prems" surrogate_not_replacement [of c] by (auto split: if_splits)
    then have "utf8_text (d # rest) = d # rest" using "3.prems" False by simp
    then have "utf8_text ((d # rest) @ b) = (d # rest) @ utf8_text b" using "3.IH"(3) False n by simp
    then show ?thesis using n by (simp add: utf8_text_head)
  qed
qed

lemma utf8_text_concat: "utf8_text a = a \<Longrightarrow> utf8_text b = b \<Longrightarrow> utf8_text (a @ b) = a @ b"
  by (simp add: utf8_text_append)

lemma surrogate_not_quote: "is_high_surrogate c \<or> is_low_surrogate c \<Longrightarrow> c \<noteq> DQ"
  by (auto simp: is_high_surrogate_def is_low_surrogate_def word_le_nat_alt)

lemma quote_plain: "\<not> is_high_surrogate DQ \<and> \<not> is_low_surrogate DQ"
  using surrogate_not_quote by blast

lemma utf8_text_double_quotes:
  "utf8_text s = s \<Longrightarrow> utf8_text (double_quotes s) = double_quotes s"
proof (induction s rule: utf8_text.induct)
  case 1
  then show ?case by simp
next
  case (2 c)
  then have "\<not> is_high_surrogate c \<and> \<not> is_low_surrogate c"
    using surrogate_not_replacement [of c] by (auto split: if_splits)
  then show ?case using quote_plain by simp
next
  case (3 c d rest)
  show ?case
  proof (cases "is_high_surrogate c \<and> is_low_surrogate d")
    case True
    then have "utf8_text rest = rest" using "3.prems" by simp
    then have "utf8_text (double_quotes rest) = double_quotes rest" using True "3.IH"(1) by simp
    moreover have "c \<noteq> DQ" "d \<noteq> DQ" using True surrogate_not_quote by blast+
    ultimately show ?thesis using True by simp
  next
    case False
    then have n: "\<not> is_high_surrogate c \<and> \<not> is_low_surrogate c"
      using "3.prems" surrogate_not_replacement [of c] by (auto split: if_splits)
    then have "utf8_text (d # rest) = d # rest" using "3.prems" False by simp
    then have r: "utf8_text (double_quotes (d # rest)) = double_quotes (d # rest)"
      using "3.IH"(3) False n by simp
    have "utf8_text ((if c = DQ then [DQ, DQ] else [c]) @ double_quotes (d # rest)) =
          (if c = DQ then [DQ, DQ] else [c]) @ double_quotes (d # rest)"
      using n quote_plain r by (intro utf8_text_concat) simp_all
    then show ?thesis by simp
  qed
qed

lemma utf8_text_csvEscape: "utf8_text s = s \<Longrightarrow> utf8_text (csvEscape s) = csvEscape s"
proof -
  assume "utf8_text s = s"
  then have d: "utf8_text (double_quotes s) = double_quotes s" by (rule utf8_text_double_quotes)
  have q: "utf8_text [DQ] = [DQ]" using quote_plain by simp
  have "utf8_text ([DQ] @ double_quotes s @ [DQ]) = [DQ] @ double_quotes s @ [DQ]"
    using d q by (intro utf8_text_concat) simp_all
  then show ?thesis using \<open>utf8_text s = s\<close> by (simp add: csvEscape_def)
qed

lemma utf8_text_join:
  "\<forall>r\<in>set rs. utf8_text r = r \<Longrightarrow> utf8_text sep = sep \<Longrightarrow>
   utf8_text (join_with sep rs) = join_with sep rs"
proof (induction sep rs rule: join_with.induct)
  case (3 sep x y ys)
  then have "utf8_text (join_with sep (y # ys)) = join_with sep (y # ys)" by simp
  then have "utf8_text (x @ sep @ join_with sep (y # ys)) = x @ sep @ join_with sep (y # ys)"
    using 3 by (intro utf8_text_concat) simp_all
  then show ?case by simp
qed simp_all

lemma digit_not_surrogate:
  "is_digit c \<or> c = MINUS \<Longrightarrow> \<not> is_high_surrogate c \<and> \<not> is_low_surrogate c"
  by (auto simp: is_digit_def is_high_surrogate_def is_low_surrogate_def word_le_nat_alt)

section \<open>A snapshot row read back\<close>

lemma parse_joined_fields:
  "parseCsvLoop False [] res (join_with [COMMA] (map csvEscape (f # fs))) = res @ f # fs"
proof (induction fs arbitrary: f res)
  case Nil
  show ?case using parse_escaped_field [of "[]" res f] by simp
next
  case (Cons f' fs)
  have "parseCsvLoop False [] res (csvEscape f @ COMMA # join_with [COMMA] (map csvEscape (f' # fs))) =
        parseCsvLoop False f res (COMMA # join_with [COMMA] (map csvEscape (f' # fs)))"
    by (rule parse_escaped_field) simp
  also have "\<dots> = parseCsvLoop False [] (res @ [f]) (join_with [COMMA] (map csvEscape (f' # fs)))"
    by simp
  also have "\<dots> = (res @ [f]) @ f' # fs" by (rule Cons.IH)
  finally show ?case by simp
qed

lemma parse_entry_row:
  "parseCsvLine (entry_row (gid, idx, name, lim, bk)) =
     [gid, show_nat idx, name, (if lim = 0 then [] else show_int lim), show_int bk]"
  unfolding parseCsvLine_def entry_row_def prod.case
  using parse_joined_fields [of "[]" gid "[show_nat idx, name, (if lim = 0 then [] else show_int lim), show_int bk]"]
  by simp

lemma csvEscape_ends:
  assumes "s \<noteq> []" "\<not> is_space (hd s)" "\<not> is_space (last s)"
  shows "csvEscape s \<noteq> [] \<and> \<not> is_space (hd (csvEscape s)) \<and> \<not> is_space (last (csvEscape s))"
  using assms by (auto simp: csvEscape_def is_space_def)

lemma csv_safe_trim: "csv_safe s \<Longrightarrow> trim s = s"
  by (simp add: csv_safe_def trim_id)

lemma entry_row_fields:
  "entry_row (gid, idx, name, lim, bk) =
     csvEscape gid @ COMMA # csvEscape (show_nat idx) @ COMMA # csvEscape name @ COMMA #
     csvEscape (if lim = 0 then [] else show_int lim) @ COMMA # csvEscape (show_int bk)"
  by (simp add: entry_row_def)

lemma entry_row_ends:
  assumes "csv_safe gid" "plain_number bk"
  shows "entry_row (gid, idx, name, lim, bk) \<noteq> [] \<and>
         \<not> is_space (hd (entry_row (gid, idx, name, lim, bk))) \<and>
         \<not> is_space (last (entry_row (gid, idx, name, lim, bk)))"
proof -
  have g: "csvEscape gid \<noteq> [] \<and> \<not> is_space (hd (csvEscape gid))"
    using assms(1) csvEscape_ends [of gid] by (simp add: csv_safe_def)
  have "show_int bk \<noteq> [] \<and> \<not> is_space (hd (show_int bk)) \<and> \<not> is_space (last (show_int bk))"
    using show_int_chars [OF assms(2)] is_digit_plain by blast
  then have b: "csvEscape (show_int bk) \<noteq> [] \<and> \<not> is_space (last (csvEscape (show_int bk)))"
    using csvEscape_ends by blast
  show ?thesis unfolding entry_row_fields using g b by simp
qed

lemma restore_entry_row:
  assumes "entry_safe (gid, idx, name, lim, bk)"
  shows "restore_row snapshot_header (entry_row (gid, idx, name, lim, bk)) st =
         push_entry (gid, idx, name, lim, bk) st"
proof -
  have gid: "csv_safe gid" and name: "csv_safe name" and ix: "idx < 2 ^ 53"
    and pl: "plain_number lim" and pb: "plain_number bk"
    using assms by (simp_all add: entry_safe_def)
  define limf where "limf = (if lim = 0 then [] else show_int lim)"
  define cols where "cols = [gid, show_nat idx, name, limf, show_int bk]"
  let ?row = "entry_row (gid, idx, name, lim, bk)"
  have t: "trim ?row = ?row" using entry_row_ends [OF gid pb] by (simp add: trim_id)
  have ne: "(?row = []) = False" using entry_row_ends [OF gid pb] by blast
  have prs: "parseCsvLine ?row = cols" unfolding cols_def limf_def by (rule parse_entry_row)
  have hdr: "idxGid snapshot_header = 0" "idxSection snapshot_header = 1" "idxName snapshot_header = 2"
    "idxLimit snapshot_header = Some 3" "idxBackup snapshot_header = Some 4"
    by (simp_all add: snapshot_header_def)
  have c: "col cols 0 = gid" "col cols 1 = show_nat idx" "col cols 2 = name"
    "col cols 3 = limf" "col cols 4 = show_int bk"
    by (simp_all add: col_def cols_def)
  have tg: "trim gid = gid" using gid by (rule csv_safe_trim)
  have tn: "trim name = name" using name by (rule csv_safe_trim)
  have gn: "(gid = [] \<or> name = []) = False" using gid name by (simp add: csv_safe_def)
  have si: "parseInt10 (trim (if show_nat idx = [] then js ''0'' else show_nat idx)) = Some (int idx)"
    using show_nat_chars(1) [OF ix] ix by (simp add: trim_show_nat parseInt10_index)
  have "parseInt10 (trim []) = None" by (simp add: trim_def parseInt10_def)
  then have lm: "parseInt10 (trim limf) = (if lim = 0 then None else Some lim)"
    unfolding limf_def using pl by (simp add: trim_show_int parseInt10_show_int)
  have bkp: "parseInt10 (trim (show_int bk)) = Some bk"
    using pb by (simp add: trim_show_int parseInt10_show_int)
  have sf: "(case Some (int idx) of None \<Rightarrow> 0 | Some n \<Rightarrow> if n \<ge> 0 then nat n else 0) = idx" by simp
  show ?thesis
    unfolding restore_row_def push_entry_def Let_def prod.case t ne if_False prs hdr c tg tn gn si sf
      option.case lm bkp
    by (cases "lim = 0") auto
qed

section \<open>The snapshot text cut into its rows\<close>

lemma split_lines_plain: "LF \<notin> set s \<Longrightarrow> split_lines cur s = [cur @ s]"
proof (induction s arbitrary: cur)
  case Nil
  then show ?case by simp
next
  case (Cons c s)
  show ?case
  proof (cases s)
    case Nil
    then show ?thesis using Cons.prems by simp
  next
    case (Cons c2 rest)
    then have "split_lines cur (c # s) = split_lines (cur @ [c]) s" using Cons.prems by auto
    then show ?thesis using Cons.IH [of "cur @ [c]"] Cons.prems by simp
  qed
qed

lemma split_lines_cut:
  "LF \<notin> set s \<Longrightarrow> s = [] \<or> last s \<noteq> CR \<Longrightarrow>
   split_lines cur (s @ LF # rest) = (cur @ s) # split_lines [] rest"
proof (induction s arbitrary: cur)
  case Nil
  then show ?case by (cases rest) simp_all
next
  case (Cons c s)
  obtain c2 r where r: "s @ LF # rest = c2 # r" by (cases "s @ LF # rest") auto
  have nl: "c \<noteq> LF" "LF \<notin> set s" using Cons.prems(1) by auto
  have "\<not> (c = CR \<and> c2 = LF)"
  proof
    assume a: "c = CR \<and> c2 = LF"
    then have "s = []" using r nl(2) by (cases s) auto
    then show False using a Cons.prems(2) by simp
  qed
  then have "split_lines cur (c # c2 # r) = split_lines (cur @ [c]) (c2 # r)" using nl(1) by auto
  moreover have "s = [] \<or> last s \<noteq> CR" using Cons.prems(2) by (cases s) auto
  ultimately show ?case using Cons.IH [OF nl(2), of "cur @ [c]"] r by simp
qed

lemma split_lines_join:
  "\<forall>r\<in>set (r0 # rs). LF \<notin> set r \<and> (r = [] \<or> last r \<noteq> CR) \<Longrightarrow>
   split_lines [] (join_with [LF] (r0 # rs)) = r0 # rs"
proof (induction rs arbitrary: r0)
  case Nil
  then show ?case by (simp add: split_lines_plain)
next
  case (Cons r1 rs)
  have "split_lines [] (r0 @ LF # join_with [LF] (r1 # rs)) =
        ([] @ r0) # split_lines [] (join_with [LF] (r1 # rs))"
    using Cons.prems by (intro split_lines_cut) auto
  then show ?case using Cons.IH [of r1] Cons.prems by simp
qed

lemma join_with_ends:
  "\<forall>r\<in>set (r0 # rs). r \<noteq> [] \<Longrightarrow>
   join_with sep (r0 # rs) \<noteq> [] \<and> hd (join_with sep (r0 # rs)) = hd r0 \<and>
   last (join_with sep (r0 # rs)) = last (last (r0 # rs))"
proof (induction rs arbitrary: r0)
  case Nil
  then show ?case by simp
next
  case (Cons r1 rs)
  then have "join_with sep (r1 # rs) \<noteq> [] \<and> last (join_with sep (r1 # rs)) = last (last (r1 # rs))"
    by simp
  then show ?case using Cons.prems by simp
qed

lemma csvEscape_set: "set (csvEscape s) \<subseteq> insert DQ (set s)"
proof -
  have "set (double_quotes s) \<subseteq> insert DQ (set s)" by (induction s) auto
  then show ?thesis by (auto simp: csvEscape_def)
qed

lemma digits_clean:
  assumes "\<forall>c\<in>set f. is_digit c \<or> c = MINUS"
  shows "LF \<notin> set f \<and> utf8_text f = f"
proof -
  have "LF \<notin> set f"
  proof
    assume "LF \<in> set f"
    then have "is_digit LF \<or> LF = MINUS" using assms by blast
    then show False using is_digit_plain [of LF] by simp
  qed
  moreover have "\<forall>c\<in>set f. \<not> is_high_surrogate c \<and> \<not> is_low_surrogate c"
    using assms digit_not_surrogate by blast
  ultimately show ?thesis using utf8_text_plain by blast
qed

lemma number_fields:
  assumes "idx < 2 ^ 53" "plain_number lim" "plain_number bk"
  shows "LF \<notin> set (show_nat idx) \<and> utf8_text (show_nat idx) = show_nat idx"
    and "LF \<notin> set (if lim = 0 then [] else show_int lim) \<and>
         utf8_text (if lim = 0 then [] else show_int lim) = (if lim = 0 then [] else show_int lim)"
    and "LF \<notin> set (show_int bk) \<and> utf8_text (show_int bk) = show_int bk"
proof -
  show "LF \<notin> set (show_nat idx) \<and> utf8_text (show_nat idx) = show_nat idx"
    using show_nat_chars(2) [OF assms(1)] by (intro digits_clean) blast
  show "LF \<notin> set (show_int bk) \<and> utf8_text (show_int bk) = show_int bk"
    using show_int_chars(2) [OF assms(3)] by (intro digits_clean)
  have "LF \<notin> set (show_int lim) \<and> utf8_text (show_int lim) = show_int lim"
    using show_int_chars(2) [OF assms(2)] by (intro digits_clean)
  then show "LF \<notin> set (if lim = 0 then [] else show_int lim) \<and>
         utf8_text (if lim = 0 then [] else show_int lim) = (if lim = 0 then [] else show_int lim)"
    by simp
qed

lemma entry_row_clean:
  assumes "entry_safe (gid, idx, name, lim, bk)"
  shows "LF \<notin> set (entry_row (gid, idx, name, lim, bk))"
    and "utf8_text (entry_row (gid, idx, name, lim, bk)) = entry_row (gid, idx, name, lim, bk)"
proof -
  have gid: "csv_safe gid" and name: "csv_safe name" and ix: "idx < 2 ^ 53"
    and pl: "plain_number lim" and pb: "plain_number bk"
    using assms by (simp_all add: entry_safe_def)
  define f1 where "f1 = show_nat idx"
  define f3 where "f3 = (if lim = 0 then [] else show_int lim)"
  define f4 where "f4 = show_int bk"
  have nf: "LF \<notin> set f1 \<and> utf8_text f1 = f1" "LF \<notin> set f3 \<and> utf8_text f3 = f3"
    "LF \<notin> set f4 \<and> utf8_text f4 = f4"
    using number_fields [OF ix pl pb] unfolding f1_def f3_def f4_def by blast+
  have gn: "LF \<notin> set gid \<and> utf8_text gid = gid" "LF \<notin> set name \<and> utf8_text name = name"
    using gid name by (simp_all add: csv_safe_def)
  have e: "\<And>s. LF \<notin> set s \<Longrightarrow> LF \<notin> set (csvEscape s)" using csvEscape_set by fastforce
  have row: "entry_row (gid, idx, name, lim, bk) =
        csvEscape gid @ [COMMA] @ csvEscape f1 @ [COMMA] @ csvEscape name @ [COMMA] @
        csvEscape f3 @ [COMMA] @ csvEscape f4"
    unfolding entry_row_fields f1_def f3_def f4_def by simp
  show "LF \<notin> set (entry_row (gid, idx, name, lim, bk))"
    unfolding row using e nf gn by simp
  have c: "utf8_text [COMMA] = [COMMA]"
    by (simp add: is_high_surrogate_def is_low_surrogate_def)
  note u = utf8_text_csvEscape
  show "utf8_text (entry_row (gid, idx, name, lim, bk)) = entry_row (gid, idx, name, lim, bk)"
    unfolding row
    by (intro utf8_text_concat u c) (simp_all add: nf gn)
qed

section \<open>The recovery on the text of a snapshot\<close>

lemma section_rows_entries: "section_rows gid idx sec = map entry_row (section_entries gid idx sec)"
  by (simp add: section_rows_def section_entries_def snapshot_row_def snapshot_fields_def entry_row_def
        real_names_def)

lemma game_rows_entries: "game_rows gid idx secs = map entry_row (game_entries gid idx secs)"
  by (induction secs arbitrary: idx) (simp_all add: section_rows_entries)

lemma registry_rows_entries: "registry_rows games = map entry_row (registry_entries games)"
  by (induction games rule: registry_entries.induct) (simp_all add: game_rows_entries)

lemma restore_rows_fold:
  "\<forall>e\<in>set es. entry_safe e \<Longrightarrow>
   fold (restore_row snapshot_header) (map entry_row es) st = fold push_entry es st"
proof (induction es arbitrary: st)
  case Nil
  then show ?case by simp
next
  case (Cons e es)
  obtain gid idx name lim bk where e: "e = (gid, idx, name, lim, bk)" by (cases e) auto
  then have "entry_safe (gid, idx, name, lim, bk)" using Cons.prems by auto
  then have "restore_row snapshot_header (entry_row e) st = push_entry e st"
    unfolding e by (rule restore_entry_row)
  then show ?case using Cons by simp
qed

lemma header_cells:
  "map (\<lambda>h. toLowerCase (trim h)) (parseCsvLine CSV_HEADER) =
     [js ''gid'', js ''sectionidx'', js ''name'', js ''limit'', js ''backuplimit'']"
  by (simp add: CSV_HEADER_def parseCsvLine_def js_def trim_def is_space_def toLowerCase_def)

lemma header_positions:
  "index_of (js ''gid'') [js ''gid'', js ''sectionidx'', js ''name'', js ''limit'', js ''backuplimit''] = Some 0"
  "index_of (js ''sectionidx'') [js ''gid'', js ''sectionidx'', js ''name'', js ''limit'', js ''backuplimit''] = Some 1"
  "index_of (js ''name'') [js ''gid'', js ''sectionidx'', js ''name'', js ''limit'', js ''backuplimit''] = Some 2"
  "index_of (js ''limit'') [js ''gid'', js ''sectionidx'', js ''name'', js ''limit'', js ''backuplimit''] = Some 3"
  "index_of (js ''backuplimit'') [js ''gid'', js ''sectionidx'', js ''name'', js ''limit'', js ''backuplimit''] = Some 4"
  by (simp_all add: js_def)

lemma header_ends:
  "CSV_HEADER \<noteq> []" "\<not> is_space (hd CSV_HEADER)" "LF \<notin> set CSV_HEADER" "last CSV_HEADER \<noteq> CR"
  "utf8_text CSV_HEADER = CSV_HEADER"
  by (simp_all add: CSV_HEADER_def js_def is_space_def is_high_surrogate_def is_low_surrogate_def)

lemma snapshot_lines:
  assumes safe: "\<forall>e\<in>set (registry_entries games). entry_safe e"
    and ne: "registry_entries games \<noteq> []"
  shows "snapshot_csv games \<noteq> []"
    and "split_lines [] (trim (snapshot_csv games)) = CSV_HEADER # registry_rows games"
    and "utf8_text (snapshot_csv games) = snapshot_csv games"
proof -
  let ?rows = "registry_rows games"
  have rows: "?rows = map entry_row (registry_entries games)" by (rule registry_rows_entries)
  then obtain r rs where rr: "?rows = r # rs" using ne by (cases ?rows) auto
  have each: "\<forall>x\<in>set ?rows. x \<noteq> [] \<and> \<not> is_space (last x) \<and> LF \<notin> set x \<and> utf8_text x = x"
  proof
    fix x assume "x \<in> set ?rows"
    then obtain e where e: "e \<in> set (registry_entries games)" "x = entry_row e" using rows by auto
    obtain gid idx name lim bk where p: "e = (gid, idx, name, lim, bk)" by (cases e) auto
    then have s: "entry_safe (gid, idx, name, lim, bk)" using safe e(1) by auto
    then have g: "csv_safe gid" "plain_number bk" by (simp_all add: entry_safe_def)
    show "x \<noteq> [] \<and> \<not> is_space (last x) \<and> LF \<notin> set x \<and> utf8_text x = x"
      using entry_row_ends [OF g, of idx name lim] entry_row_clean [OF s] e(2) p by simp
  qed
  let ?X = "join_with [LF] (CSV_HEADER # ?rows)"
  have X: "?X = CSV_HEADER @ [LF] @ join_with [LF] ?rows" unfolding rr by simp
  have csv: "snapshot_csv games = ?X @ [LF]" using rr X by (simp add: snapshot_csv_def)
  show "snapshot_csv games \<noteq> []" unfolding csv by simp
  have nonempty: "\<forall>x\<in>set (CSV_HEADER # ?rows). x \<noteq> []" using each header_ends(1) by simp
  have ends: "?X \<noteq> [] \<and> hd ?X = hd CSV_HEADER \<and> last ?X = last (last (CSV_HEADER # ?rows))"
    using nonempty by (rule join_with_ends)
  have "last (CSV_HEADER # ?rows) \<in> set ?rows" unfolding rr by simp
  then have "\<not> is_space (last (last (CSV_HEADER # ?rows)))" using each by blast
  then have tX: "trim ?X = ?X" using ends header_ends(2) by (intro trim_id) simp_all
  have "list_all is_space [LF]" by (simp add: is_space_def)
  then have "trim (?X @ [LF]) = trim ?X" by (rule trim_append_spaces)
  then have t: "trim (snapshot_csv games) = ?X" using csv tX by simp
  have cr: "is_space CR" by (simp add: is_space_def)
  have "\<forall>x\<in>set (CSV_HEADER # ?rows). LF \<notin> set x \<and> (x = [] \<or> last x \<noteq> CR)"
    using each header_ends(3,4) cr by auto
  then have "split_lines [] ?X = CSV_HEADER # ?rows" by (rule split_lines_join)
  then show "split_lines [] (trim (snapshot_csv games)) = CSV_HEADER # ?rows" using t by simp
  have lf: "utf8_text [LF] = [LF]" by (simp add: is_high_surrogate_def is_low_surrogate_def)
  have "\<forall>x\<in>set (CSV_HEADER # ?rows). utf8_text x = x" using each header_ends(5) by simp
  then have "utf8_text ?X = ?X" using lf by (rule utf8_text_join)
  then show "utf8_text (snapshot_csv games) = snapshot_csv games"
    unfolding csv using lf by (rule utf8_text_concat)
qed

lemma restore_snapshot:
  assumes safe: "\<forall>e\<in>set (registry_entries games). entry_safe e"
    and ne: "registry_entries games \<noteq> []"
  shows "restoreGamesFromCsv (utf8_text (snapshot_csv games)) now [] =
     (if fst (fold push_entry (registry_entries games) ([], [])) = [] then (False, [])
      else (True,
            fold (\<lambda>(gid, sectionMap) gs.
                    AList.update gid
                      (restored_game now (snd (fold push_entry (registry_entries games) ([], []))) gid sectionMap) gs)
                 (fst (fold push_entry (registry_entries games) ([], []))) []))"
proof -
  have u: "utf8_text (snapshot_csv games) = snapshot_csv games" by (rule snapshot_lines(3) [OF safe ne])
  have c: "(snapshot_csv games = []) = False" using snapshot_lines(1) [OF safe ne] by simp
  have sl: "split_lines [] (trim (snapshot_csv games)) = CSV_HEADER # registry_rows games"
    by (rule snapshot_lines(2) [OF safe ne])
  have len: "(length (CSV_HEADER # registry_rows games) \<le> 1) = False"
    using ne by (simp add: registry_rows_entries)
  have hdr: "\<lparr>idxGid = 0, idxSection = 1, idxName = 2, idxLimit = Some 3, idxBackup = Some 4\<rparr> = snapshot_header"
    by (simp add: snapshot_header_def)
  have f: "fold (restore_row snapshot_header) (registry_rows games) ([], []) =
           fold push_entry (registry_entries games) ([], [])"
    unfolding registry_rows_entries using safe by (rule restore_rows_fold)
  show ?thesis
    unfolding u restoreGamesFromCsv_def Let_def sl list.sel header_cells header_positions option.case
      hdr f c len
    by simp
qed

section \<open>What the recovery collects from a list of entries\<close>

lemma push_entry_lists:
  "get2 (fst (push_entry (gid, idx, name, lim, bk) st)) g i =
     (if g = gid \<and> i = idx then
        Some (let l = (case get2 (fst st) gid idx of None \<Rightarrow> [] | Some l \<Rightarrow> l)
              in if name \<in> set l then l else l @ [name])
      else get2 (fst st) g i)"
  by (auto simp: push_entry_def Let_def get2_put2 get2_ensure2 map_of_ensure2 split: option.splits)

lemma push_entry_meta:
  "get2 (snd (push_entry (gid, idx, name, lim, bk) st)) g i =
     (if g = gid \<and> i = idx then
        Some (let m0 = (case get2 (snd st) gid idx of
                          None \<Rightarrow> \<lparr>meta_limit = None, meta_backup = None\<rparr> | Some m \<Rightarrow> m);
                  m1 = (if lim > 0 then m0\<lparr>meta_limit := Some (seen_max (meta_limit m0) lim)\<rparr> else m0)
              in if bk \<ge> 0 then m1\<lparr>meta_backup := Some (seen_max (meta_backup m1) bk)\<rparr> else m1)
      else get2 (snd st) g i)"
  by (auto simp: push_entry_def Let_def get2_put2 get2_ensure2 map_of_ensure2 split: option.splits)

lemma push_entry_keys:
  "distinct (map fst (fst st)) \<Longrightarrow> distinct (map fst (fst (push_entry e st)))"
  by (cases e) (auto simp: push_entry_def Let_def keys_put2 keys_ensure2)

lemma fold_push_keys:
  "distinct (map fst (fst st)) \<Longrightarrow> distinct (map fst (fst (fold push_entry es st)))"
  by (induction es arbitrary: st) (simp_all add: push_entry_keys)

lemma names_at_snoc:
  "names_at g i (es @ [(gid, idx, name, lim, bk)]) =
     (if gid = g \<and> idx = i then names_at g i es @ [name] else names_at g i es)"
  by (simp add: names_at_def)

lemma fold_push_lists:
  "\<forall>g i. distinct (names_at g i es) \<Longrightarrow>
   get2 (fst (fold push_entry es ([], []))) g i =
     (if names_at g i es = [] then None else Some (names_at g i es))"
proof (induction es arbitrary: g i rule: rev_induct)
  case Nil
  then show ?case by (simp add: names_at_def get2_def)
next
  case (snoc e es)
  obtain gid idx name lim bk where e: "e = (gid, idx, name, lim, bk)" by (cases e) auto
  have d: "\<forall>g i. distinct (names_at g i es)"
  proof (intro allI)
    fix g i
    show "distinct (names_at g i es)"
      using snoc.prems [rule_format, of g i] unfolding e names_at_snoc by (auto split: if_splits)
  qed
  have IH: "\<And>g i. get2 (fst (fold push_entry es ([], []))) g i =
     (if names_at g i es = [] then None else Some (names_at g i es))"
    using snoc.IH [OF d] by blast
  show ?case
  proof (cases "g = gid \<and> i = idx")
    case False
    then show ?thesis unfolding e using IH [of g i]
      by (auto simp: push_entry_lists names_at_snoc)
  next
    case True
    have "distinct (names_at gid idx es @ [name])"
      using snoc.prems [rule_format, of gid idx] unfolding e names_at_snoc by simp
    then have "name \<notin> set (names_at gid idx es)" by simp
    then show ?thesis unfolding e using True IH [of gid idx]
      by (auto simp: push_entry_lists names_at_snoc Let_def)
  qed
qed

lemma seen_max_fresh: "lim > 0 \<Longrightarrow> seen_max None lim = lim" "bk \<ge> 0 \<Longrightarrow> seen_max None bk = bk"
  "seen_max (Some v) v = v"
  by (simp_all add: seen_max_def)

lemma fold_push_meta:
  "\<forall>(gid, idx, name, lim, bk)\<in>set es. lim = L gid idx \<and> bk = B gid idx \<Longrightarrow>
   get2 (snd (fold push_entry es ([], []))) g i =
     (if names_at g i es = [] then None else Some (meta_of (L g i) (B g i)))"
proof (induction es arbitrary: g i rule: rev_induct)
  case Nil
  then show ?case by (simp add: names_at_def get2_def)
next
  case (snoc e es)
  obtain gid idx name lim bk where e: "e = (gid, idx, name, lim, bk)" by (cases e) auto
  have caps: "lim = L gid idx" "bk = B gid idx" using snoc.prems unfolding e by auto
  have IH: "\<And>g i. get2 (snd (fold push_entry es ([], []))) g i =
     (if names_at g i es = [] then None else Some (meta_of (L g i) (B g i)))"
    using snoc.IH snoc.prems by auto
  show ?case
  proof (cases "g = gid \<and> i = idx")
    case False
    then show ?thesis unfolding e using IH [of g i]
      by (auto simp: push_entry_meta names_at_snoc)
  next
    case True
    show ?thesis unfolding e using True IH [of gid idx] caps
      by (auto simp: push_entry_meta names_at_snoc Let_def meta_of_def seen_max_fresh)
  qed
qed

section \<open>The entries of a registry\<close>

lemma names_at_append: "names_at g i (a @ b) = names_at g i a @ names_at g i b"
  by (simp add: names_at_def)

lemma names_at_section:
  "names_at g i (section_entries gid idx sec) =
     (if g = gid \<and> i = idx then real_names (list sec) else [])"
  by (induction "real_names (list sec)") (auto simp: names_at_def section_entries_def o_def)

lemma names_at_game:
  "names_at g i (game_entries gid idx0 secs) =
     (if g = gid \<and> idx0 \<le> i \<and> i < idx0 + length secs then real_names (list (secs ! (i - idx0)))
      else [])"
proof (induction secs arbitrary: idx0)
  case Nil
  then show ?case by (auto simp: names_at_def)
next
  case (Cons sec secs)
  show ?case
  proof (cases "g = gid \<and> i = idx0")
    case True
    then show ?thesis using Cons.IH [of "idx0 + 1"] by (simp add: names_at_append names_at_section)
  next
    case False
    then have "g = gid \<and> idx0 \<le> i \<and> i < idx0 + length (sec # secs) \<Longrightarrow>
               (sec # secs) ! (i - idx0) = secs ! (i - (idx0 + 1))"
    proof -
      assume a: "g = gid \<and> idx0 \<le> i \<and> i < idx0 + length (sec # secs)"
      then have "i - idx0 = Suc (i - (idx0 + 1))" using False by linarith
      then show ?thesis by simp
    qed
    then show ?thesis using False Cons.IH [of "idx0 + 1"]
      by (auto simp: names_at_append names_at_section)
  qed
qed

lemma names_at_registry:
  "distinct (map fst games) \<Longrightarrow>
   names_at g i (registry_entries games) =
     (case map_of games g of
        None \<Rightarrow> []
      | Some gm \<Rightarrow> if i < length (sections gm) then real_names (list (sections gm ! i)) else [])"
proof (induction games rule: registry_entries.induct)
  case 1
  then show ?case by (simp add: names_at_def)
next
  case (2 gid gm games)
  then have IH: "names_at g i (registry_entries games) =
     (case map_of games g of
        None \<Rightarrow> []
      | Some gm \<Rightarrow> if i < length (sections gm) then real_names (list (sections gm ! i)) else [])"
    by simp
  show ?case
  proof (cases "g = gid")
    case True
    then have "map_of games g = None" using "2.prems" by (simp add: map_of_eq_None_iff)
    then show ?thesis using True IH by (simp add: names_at_append names_at_game)
  next
    case False
    then show ?thesis using IH by (simp add: names_at_append names_at_game)
  qed
qed

lemma game_entries_member:
  "(gid, idx, name, lim, bk) \<in> set (game_entries gid0 idx0 secs) \<Longrightarrow>
   gid = gid0 \<and> idx0 \<le> idx \<and> idx < idx0 + length secs \<and>
   name \<in> set (real_names (list (secs ! (idx - idx0)))) \<and>
   lim = limit (secs ! (idx - idx0)) \<and> bk = backupLimit (secs ! (idx - idx0))"
proof (induction secs arbitrary: idx0)
  case Nil
  then show ?case by simp
next
  case (Cons sec secs)
  show ?case
  proof (cases "(gid, idx, name, lim, bk) \<in> set (section_entries gid0 idx0 sec)")
    case True
    then show ?thesis by (auto simp: section_entries_def)
  next
    case False
    then have "(gid, idx, name, lim, bk) \<in> set (game_entries gid0 (idx0 + 1) secs)"
      using Cons.prems by simp
    from Cons.IH [OF this] have r: "gid = gid0" "idx0 + 1 \<le> idx" "idx < idx0 + 1 + length secs"
      "name \<in> set (real_names (list (secs ! (idx - (idx0 + 1)))))"
      "lim = limit (secs ! (idx - (idx0 + 1)))" "bk = backupLimit (secs ! (idx - (idx0 + 1)))"
      by simp_all
    have "idx - idx0 = Suc (idx - (idx0 + 1))" using r(2) by linarith
    then have "(sec # secs) ! (idx - idx0) = secs ! (idx - (idx0 + 1))" by simp
    then show ?thesis using r by simp
  qed
qed

lemma registry_entries_member:
  "(gid, idx, name, lim, bk) \<in> set (registry_entries games) \<Longrightarrow>
   \<exists>gm. (gid, gm) \<in> set games \<and> idx < length (sections gm) \<and>
        name \<in> set (real_names (list (sections gm ! idx))) \<and>
        lim = limit (sections gm ! idx) \<and> bk = backupLimit (sections gm ! idx)"
proof (induction games rule: registry_entries.induct)
  case 1
  then show ?case by simp
next
  case (2 gid0 gm games)
  show ?case
  proof (cases "(gid, idx, name, lim, bk) \<in> set (game_entries gid0 0 (sections gm))")
    case True
    from game_entries_member [OF this] show ?thesis by auto
  next
    case False
    then have "(gid, idx, name, lim, bk) \<in> set (registry_entries games)" using "2.prems" by simp
    from "2.IH" [OF this] show ?thesis by auto
  qed
qed

section \<open>The game the recovery builds\<close>

lemma fold_update_map_of:
  "distinct (map fst al) \<Longrightarrow>
   map_of (fold (\<lambda>(k, v) gs. AList.update k (f k v) gs) al acc) k =
     (case map_of al k of Some v \<Rightarrow> Some (f k v) | None \<Rightarrow> map_of acc k)"
proof (induction al arbitrary: acc)
  case Nil
  then show ?case by simp
next
  case (Cons a al)
  obtain k0 v0 where a: "a = (k0, v0)" by (cases a) auto
  have d: "distinct (map fst al)" "k0 \<notin> fst ` set al" using Cons.prems a by auto
  have n: "map_of al k0 = None" using d(2) by (simp add: map_of_eq_None_iff)
  show ?case unfolding a using Cons.IH [OF d(1), of "AList.update k0 (f k0 v0) acc"] n
    by (auto simp: update_conv' split: option.splits)
qed

lemma fold_max_bounds:
  "a \<le> fold max xs a \<and> (\<forall>x\<in>set xs. x \<le> fold max xs a) \<and> fold max xs a \<in> insert a (set xs)"
  for a :: nat
proof (induction xs arbitrary: a)
  case Nil
  then show ?case by simp
next
  case (Cons x xs)
  from Cons.IH [of "max x a"] show ?case by (auto simp: max_def split: if_splits)
qed

lemma last_key:
  assumes "k \<in> set ks" and "\<forall>x\<in>set ks. x \<le> k"
  shows "fold max ks 0 = (k::nat)"
proof -
  have "k \<le> fold max ks 0" using fold_max_bounds [of 0 ks] assms(1) by blast
  moreover have "fold max ks 0 \<le> k" using fold_max_bounds [of 0 ks] assms(2) by auto
  ultimately show ?thesis by simp
qed

lemma restored_game_sections:
  assumes sm: "map_of byGid gid = Some sm"
    and lists: "\<And>i. get2 byGid gid i = (if names i = [] then None else Some (names i))"
    and metas: "\<And>i. get2 metaByGid gid i = (if names i = [] then None else Some (meta_of (L i) (B i)))"
    and k: "names k \<noteq> []" "\<forall>i>k. names i = []"
  shows "length (sections (restored_game now metaByGid gid sm)) = k + 1"
    and "i \<le> k \<Longrightarrow> list (sections (restored_game now metaByGid gid sm) ! i) = names i"
    and "i \<le> k \<Longrightarrow> limit (sections (restored_game now metaByGid gid sm) ! i) =
           (if names i \<noteq> [] \<and> L i > 0 then L i else max 20 (int (length (names i))))"
    and "i \<le> k \<Longrightarrow> backupLimit (sections (restored_game now metaByGid gid sm) ! i) =
           (if names i \<noteq> [] \<and> B i \<ge> 0 then B i else 5)"
proof -
  have g: "\<And>i. map_of sm i = (if names i = [] then None else Some (names i))"
    using lists sm by (simp add: get2_def)
  have "k \<in> set (map fst sm)"
    using g [of k] k(1) by (metis map_of_eq_None_iff option.distinct(1) set_map)
  moreover have "\<forall>x\<in>set (map fst sm). x \<le> k"
  proof
    fix x assume "x \<in> set (map fst sm)"
    then have "map_of sm x \<noteq> None" by (simp add: map_of_eq_None_iff)
    then have "names x \<noteq> []" using g [of x] by auto
    then show "x \<le> k" using k(2) by (meson not_le_imp_less)
  qed
  ultimately have mx: "fold max (map fst sm) 0 = k" by (rule last_key)
  let ?mm = "case map_of metaByGid gid of None \<Rightarrow> [] | Some mm \<Rightarrow> mm"
  have m: "map_of ?mm i = (if names i = [] then None else Some (meta_of (L i) (B i)))" for i
    using metas [of i] by (cases "map_of metaByGid gid") (simp_all add: get2_def)
  have secs: "sections (restored_game now metaByGid gid sm) = map (restored_section sm ?mm) [0..<k + 1]"
    using mx by (simp add: restored_game_def Let_def)
  show "length (sections (restored_game now metaByGid gid sm)) = k + 1" unfolding secs by simp
  assume i: "i \<le> k"
  then have nth: "sections (restored_game now metaByGid gid sm) ! i = restored_section sm ?mm i"
    unfolding secs using nth_map_upt [of i "k + 1" 0 "restored_section sm ?mm"] by simp
  show "list (sections (restored_game now metaByGid gid sm) ! i) = names i"
    unfolding nth by (simp add: restored_section_def Let_def g)
  show "limit (sections (restored_game now metaByGid gid sm) ! i) =
           (if names i \<noteq> [] \<and> L i > 0 then L i else max 20 (int (length (names i))))"
    unfolding nth by (simp add: restored_section_def Let_def g m meta_of_def)
  show "backupLimit (sections (restored_game now metaByGid gid sm) ! i) =
           (if names i \<noteq> [] \<and> B i \<ge> 0 then B i else 5)"
    unfolding nth by (simp add: restored_section_def Let_def g m meta_of_def)
qed

text \<open>
  C1, as amended. Take a registry with one game per conversation id in which the real
  names of every section are pairwise distinct, in which every conversation id and every
  real name is kept by the snapshot as it is (not empty, no white space at either end,
  no line feed, no surrogate outside a pair), in which a game has at most \<open>2^32\<close>
  sections, and in which the two capacities of every section that holds a real name are
  Numbers below \<open>10^21\<close> in magnitude. Take a game of it that holds a real name, and let
  \<open>k\<close> be the last section index that holds one. The text of the snapshot comes back
  from the store as it was written, and the recovery on it from the empty registry
  succeeds and yields for that conversation a game with the sections 0 to \<open>k\<close>. The list
  of each of them is the list of the real names of the original section in their order,
  so no placeholder is in it. The limit of a restored section is the original limit when
  the section has a row and that limit is above 0, and the greater of 20 and the number
  of names otherwise; its waitlist limit is the original one when the section has a row
  and that limit is not negative, and 5 otherwise.
\<close>

theorem snapshot_roundtrip:
  assumes keys: "distinct (map fst games)" and ok: "registry_ok games"
    and safe: "\<forall>(gid, g)\<in>set games. csv_safe gid \<and> length (sections g) \<le> 2 ^ 32 \<and>
                 (\<forall>s\<in>set (sections g).
                    (\<forall>n\<in>set (real_names (list s)). csv_safe n) \<and>
                    (real_names (list s) \<noteq> [] \<longrightarrow>
                       plain_number (limit s) \<and> plain_number (backupLimit s)))"
    and g0: "map_of games gid0 = Some g0"
    and k: "k < length (sections g0)" "real_names (list (sections g0 ! k)) \<noteq> []"
           "\<forall>i. k < i \<and> i < length (sections g0) \<longrightarrow> real_names (list (sections g0 ! i)) = []"
  shows "utf8_text (snapshot_csv games) = snapshot_csv games \<and>
         (\<exists>g'. fst (restoreGamesFromCsv (utf8_text (snapshot_csv games)) now []) \<and>
              map_of (snd (restoreGamesFromCsv (utf8_text (snapshot_csv games)) now [])) gid0 = Some g' \<and>
              length (sections g') = k + 1 \<and>
              (\<forall>i\<le>k. list (sections g' ! i) = real_names (list (sections g0 ! i)) \<and>
                     ANON \<notin> set (list (sections g' ! i)) \<and>
                     limit (sections g' ! i) =
                       (if real_names (list (sections g0 ! i)) \<noteq> [] \<and> limit (sections g0 ! i) > 0
                        then limit (sections g0 ! i)
                        else max 20 (int (length (real_names (list (sections g0 ! i)))))) \<and>
                     backupLimit (sections g' ! i) =
                       (if real_names (list (sections g0 ! i)) \<noteq> [] \<and> backupLimit (sections g0 ! i) \<ge> 0
                        then backupLimit (sections g0 ! i)
                        else 5)))"
proof -
  let ?es = "registry_entries games"
  let ?st = "fold push_entry ?es ([], [])"
  let ?text = "utf8_text (snapshot_csv games)"
  define L where "L g i = (case map_of games g of None \<Rightarrow> 0 | Some gm \<Rightarrow> limit (sections gm ! i))" for g i
  define B where "B g i = (case map_of games g of None \<Rightarrow> 0 | Some gm \<Rightarrow> backupLimit (sections gm ! i))" for g i
  define names where "names i = names_at gid0 i ?es" for i
  have NA: "names_at g i ?es =
     (case map_of games g of
        None \<Rightarrow> []
      | Some gm \<Rightarrow> if i < length (sections gm) then real_names (list (sections gm ! i)) else [])" for g i
    by (rule names_at_registry [OF keys])
  have nm: "names i = (if i < length (sections g0) then real_names (list (sections g0 ! i)) else [])" for i
    unfolding names_def NA using g0 by simp
  have member: "\<exists>gm. map_of games gid = Some gm \<and> (gid, gm) \<in> set games \<and> idx < length (sections gm) \<and>
        name \<in> set (real_names (list (sections gm ! idx))) \<and>
        lim = limit (sections gm ! idx) \<and> bk = backupLimit (sections gm ! idx)"
    if "(gid, idx, name, lim, bk) \<in> set ?es" for gid idx name lim bk
    using registry_entries_member [OF that] keys by (metis map_of_is_SomeI)
  have es_safe: "\<forall>e\<in>set ?es. entry_safe e"
  proof
    fix e assume e: "e \<in> set ?es"
    obtain gid idx name lim bk where p: "e = (gid, idx, name, lim, bk)" by (cases e) auto
    from member [OF e [unfolded p]] obtain gm where gm: "(gid, gm) \<in> set games"
      "idx < length (sections gm)" "name \<in> set (real_names (list (sections gm ! idx)))"
      "lim = limit (sections gm ! idx)" "bk = backupLimit (sections gm ! idx)" by blast
    have s: "sections gm ! idx \<in> set (sections gm)" using gm(2) by simp
    have ne: "real_names (list (sections gm ! idx)) \<noteq> []" using gm(3) by auto
    have g: "csv_safe gid" "length (sections gm) \<le> 2 ^ 32" using safe gm(1) by auto
    have n: "csv_safe name" using safe gm(1,3) s by blast
    have c: "plain_number lim" "plain_number bk" using safe gm(1,4,5) s ne by blast+
    have "(2::nat) ^ 32 < 2 ^ 53" by simp
    then have "idx < 2 ^ 53" using gm(2) g(2) by linarith
    then show "entry_safe e" unfolding p using g(1) n c by (simp add: entry_safe_def)
  qed
  have es_caps: "\<forall>(gid, idx, name, lim, bk)\<in>set ?es. lim = L gid idx \<and> bk = B gid idx"
  proof (clarify)
    fix gid idx name lim bk assume "(gid, idx, name, lim, bk) \<in> set ?es"
    from member [OF this] show "lim = L gid idx \<and> bk = B gid idx" by (auto simp: L_def B_def)
  qed
  have es_distinct: "\<forall>g i. distinct (names_at g i ?es)"
  proof (intro allI)
    fix g i
    show "distinct (names_at g i ?es)"
    proof (cases "map_of games g")
      case None
      then show ?thesis by (simp add: NA)
    next
      case (Some gm)
      then have "game_ok gm" using ok by (simp add: registry_ok_def)
      then have "i < length (sections gm) \<Longrightarrow> distinct (real_names (list (sections gm ! i)))"
        by (simp add: game_ok_def list_all_length section_ok_def real_names_def)
      then show ?thesis using Some by (simp add: NA)
    qed
  qed
  have lists: "get2 (fst ?st) gid0 i = (if names i = [] then None else Some (names i))" for i
    unfolding names_def by (rule fold_push_lists [OF es_distinct])
  have metas: "get2 (snd ?st) gid0 i = (if names i = [] then None else Some (meta_of (L gid0 i) (B gid0 i)))" for i
    unfolding names_def by (rule fold_push_meta [OF es_caps])
  have nk: "names k \<noteq> []" "\<forall>i>k. names i = []" using k by (simp_all add: nm)
  then have "get2 (fst ?st) gid0 k \<noteq> None" using lists [of k] by simp
  then obtain sm where sm: "map_of (fst ?st) gid0 = Some sm"
    by (auto simp: get2_def split: option.splits)
  then have st_ne: "fst ?st \<noteq> []" by auto
  have "names_at gid0 k ?es \<noteq> []" using nk(1) by (simp add: names_def)
  then have es_ne: "?es \<noteq> []" by (auto simp: names_at_def)
  have stored: "utf8_text (snapshot_csv games) = snapshot_csv games"
    by (rule snapshot_lines(3) [OF es_safe es_ne])
  have res: "restoreGamesFromCsv ?text now [] =
     (True, fold (\<lambda>(gid, sectionMap) gs. AList.update gid (restored_game now (snd ?st) gid sectionMap) gs)
                 (fst ?st) [])"
    using restore_snapshot [OF es_safe es_ne, of now] st_ne by simp
  have dk: "distinct (map fst (fst ?st))" by (rule fold_push_keys) simp
  let ?g' = "restored_game now (snd ?st) gid0 sm"
  have look: "map_of (snd (restoreGamesFromCsv ?text now [])) gid0 = Some ?g'"
    unfolding res using fold_update_map_of [OF dk, of "restored_game now (snd ?st)" "[]" gid0] sm
    by simp
  note rs = restored_game_sections [where now = now and names = names and L = "L gid0"
      and B = "B gid0" and k = k, OF sm lists metas nk]
  have per: "list (sections ?g' ! i) = real_names (list (sections g0 ! i)) \<and>
             ANON \<notin> set (list (sections ?g' ! i)) \<and>
             limit (sections ?g' ! i) =
               (if real_names (list (sections g0 ! i)) \<noteq> [] \<and> limit (sections g0 ! i) > 0
                then limit (sections g0 ! i)
                else max 20 (int (length (real_names (list (sections g0 ! i)))))) \<and>
             backupLimit (sections ?g' ! i) =
               (if real_names (list (sections g0 ! i)) \<noteq> [] \<and> backupLimit (sections g0 ! i) \<ge> 0
                then backupLimit (sections g0 ! i)
                else 5)" if i: "i \<le> k" for i
  proof -
    have il: "i < length (sections g0)" using i k(1) by simp
    have n: "names i = real_names (list (sections g0 ! i))" using il by (simp add: nm)
    have c: "L gid0 i = limit (sections g0 ! i)" "B gid0 i = backupLimit (sections g0 ! i)"
      using g0 by (simp_all add: L_def B_def)
    have "ANON \<notin> set (real_names (list (sections g0 ! i)))" by (simp add: real_names_def)
    then show ?thesis using rs(2) [OF i] rs(3) [OF i] rs(4) [OF i] unfolding n c by simp
  qed
  have f: "fst (restoreGamesFromCsv ?text now [])" unfolding res by simp
  have len: "length (sections ?g') = k + 1" by (rule rs(1))
  show ?thesis using stored f look len per by blast
qed

lemma plain_small: "plain_number 3" "plain_number 2"
  by (simp_all add: plain_number_def to_number_def)

theorem snapshot_roundtrip_witness:
  "\<exists>g'. fst (restoreGamesFromCsv
              (utf8_text (snapshot_csv [(js ''C1'', ex_game [ex_section [js ''A'', ANON, js ''B''], ex_section [js ''C'']])]))
              5 []) \<and>
        map_of (snd (restoreGamesFromCsv
              (utf8_text (snapshot_csv [(js ''C1'', ex_game [ex_section [js ''A'', ANON, js ''B''], ex_section [js ''C'']])]))
              5 [])) (js ''C1'') = Some g' \<and>
        length (sections g') = 2 \<and>
        list (sections g' ! 0) = [js ''A'', js ''B''] \<and> list (sections g' ! 1) = [js ''C''] \<and>
        limit (sections g' ! 0) = 3 \<and> backupLimit (sections g' ! 0) = 2"
proof -
  let ?g = "ex_game [ex_section [js ''A'', ANON, js ''B''], ex_section [js ''C'']]"
  let ?games = "[(js ''C1'', ?g)]"
  have ne: "js ''A'' \<noteq> ANON" "js ''B'' \<noteq> ANON" "js ''C'' \<noteq> ANON" "js ''A'' \<noteq> js ''B''"
    by (simp_all add: js_def ANON_def)
  have r0: "real_names (list (sections ?g ! 0)) = [js ''A'', js ''B'']"
    and r1: "real_names (list (sections ?g ! 1)) = [js ''C'']"
    using ne by (simp_all add: real_names_def ex_game_def ex_section_def)
  have c: "limit (sections ?g ! 0) = 3" "backupLimit (sections ?g ! 0) = 2"
    by (simp_all add: ex_game_def ex_section_def)
  have h1: "distinct (map fst ?games)" by simp
  have h2: "registry_ok ?games"
    using ne by (simp add: registry_ok_def game_ok_def section_ok_def ex_game_def ex_section_def)
  have s: "csv_safe (js ''C1'')" "csv_safe (js ''A'')" "csv_safe (js ''B'')" "csv_safe (js ''C'')"
    by (simp_all add: csv_safe_def js_def is_space_def is_high_surrogate_def is_low_surrogate_def)
  have h3: "\<forall>(gid, g)\<in>set ?games. csv_safe gid \<and> length (sections g) \<le> 2 ^ 32 \<and>
                 (\<forall>s\<in>set (sections g).
                    (\<forall>n\<in>set (real_names (list s)). csv_safe n) \<and>
                    (real_names (list s) \<noteq> [] \<longrightarrow>
                       plain_number (limit s) \<and> plain_number (backupLimit s)))"
    using s ne plain_small by (auto simp: real_names_def ex_game_def ex_section_def)
  have h4: "map_of ?games (js ''C1'') = Some ?g" by simp
  have h5: "1 < length (sections ?g)" by (simp add: ex_game_def)
  have h6: "real_names (list (sections ?g ! 1)) \<noteq> []" using r1 by simp
  have "length (sections ?g) = 2" by (simp add: ex_game_def)
  then have h7: "\<forall>i. 1 < i \<and> i < length (sections ?g) \<longrightarrow> real_names (list (sections ?g ! i)) = []"
    by auto
  from snapshot_roundtrip [OF h1 h2 h3 h4 h5 h6 h7, of 5]
  obtain g' where g': "fst (restoreGamesFromCsv (utf8_text (snapshot_csv ?games)) 5 [])"
    "map_of (snd (restoreGamesFromCsv (utf8_text (snapshot_csv ?games)) 5 [])) (js ''C1'') = Some g'"
    "length (sections g') = 1 + 1"
    "\<forall>i\<le>1. list (sections g' ! i) = real_names (list (sections ?g ! i)) \<and>
            ANON \<notin> set (list (sections g' ! i)) \<and>
            limit (sections g' ! i) =
              (if real_names (list (sections ?g ! i)) \<noteq> [] \<and> limit (sections ?g ! i) > 0
               then limit (sections ?g ! i)
               else max 20 (int (length (real_names (list (sections ?g ! i)))))) \<and>
            backupLimit (sections g' ! i) =
              (if real_names (list (sections ?g ! i)) \<noteq> [] \<and> backupLimit (sections ?g ! i) \<ge> 0
               then backupLimit (sections ?g ! i)
               else 5)"
    by blast
  have a0: "list (sections g' ! 0) = [js ''A'', js ''B'']" "limit (sections g' ! 0) = 3"
    "backupLimit (sections g' ! 0) = 2"
    using g'(4) [rule_format, of 0] unfolding r0 c by simp_all
  have a1: "list (sections g' ! 1) = [js ''C'']"
    using g'(4) [rule_format, of 1] unfolding r1 by simp
  show ?thesis using g'(1,2,3) a0 a1 by (intro exI [of _ g']) simp
qed

lemma big_text: "show_int 1000000000000000000000 = js ''1e+21''"
  by (simp add: show_int_def show_nat_def to_number_def bit_len.simps shortest_from.simps
        decimal.simps exponent_text_def Let_def digit_char_def js_def)

lemma padded_name_snapshot:
  "utf8_text (snapshot_csv [(js ''C1'', ex_game [ex_section [js ''A '']])]) =
     js ''gid,sectionIdx,name,limit,backupLimit'' @ [LF] @ js ''C1,0,A ,3,2'' @ [LF]"
  by (simp add: snapshot_csv_def section_rows_def snapshot_row_def snapshot_fields_def ex_game_def
        ex_section_def CSV_HEADER_def js_def ANON_def csvEscape_def needs_quoting_def show_int_def
        show_nat_def decimal.simps digit_char_def is_high_surrogate_def is_low_surrogate_def)

lemma padded_name_restore:
  "restoreGamesFromCsv (js ''gid,sectionIdx,name,limit,backupLimit'' @ [LF] @ js ''C1,0,A ,3,2'' @ [LF]) 5 [] =
     (True, [(js ''C1'', (ex_game [ex_section [js ''A'']])
        \<lparr>title := [0x7FBD, 0x7403, 0x63A5, 0x9F8D], startTime := 5, lastActiveTime := 5,
          sections := [(ex_section [js ''A''])\<lparr>sec_title := SECTION0_TITLE\<rparr>]\<rparr>)])"
  by (simp add: restoreGamesFromCsv_def restore_row_def restored_game_def restored_section_def
        parseCsvLine_def js_def trim_def is_space_def toLowerCase_def Let_def col_def parseInt10_def
        is_digit_def digits_value_def to_number_def ensure2_def put2_def get2_def seen_max_def
        ex_game_def ex_section_def)

lemma placeholder_only_restore:
  "restoreGamesFromCsv (utf8_text (snapshot_csv [(js ''C1'', ex_game [ex_section [ANON]])])) 5 [] = (False, [])"
  by (simp add: restoreGamesFromCsv_def snapshot_csv_def section_rows_def ex_game_def ex_section_def
        CSV_HEADER_def js_def trim_def is_space_def Let_def is_high_surrogate_def is_low_surrogate_def)

lemma big_limit_fields:
  "snapshot_fields (js ''C1'') 0 ((ex_section [js ''A''])\<lparr>limit := 10 ^ 21\<rparr>) (js ''A'') =
     [js ''C1'', js ''0'', js ''A'', js ''1e+21'', js ''2'']"
proof -
  have "show_nat 0 = js ''0''" "show_int 2 = js ''2''"
    by (simp_all add: show_int_def show_nat_def decimal.simps digit_char_def js_def)
  then show ?thesis by (simp add: snapshot_fields_def ex_section_def big_text)
qed

lemma big_limit_snapshot:
  "utf8_text (snapshot_csv [(js ''C1'', ex_game [(ex_section [js ''A''])\<lparr>limit := 10 ^ 21\<rparr>])]) =
     js ''gid,sectionIdx,name,limit,backupLimit'' @ [LF] @ js ''C1,0,A,1e+21,2'' @ [LF]"
proof -
  have "js ''A'' \<noteq> ANON" by (simp add: js_def ANON_def)
  then have "registry_rows [(js ''C1'', ex_game [(ex_section [js ''A''])\<lparr>limit := 10 ^ 21\<rparr>])] =
        [join_with [COMMA] (map csvEscape [js ''C1'', js ''0'', js ''A'', js ''1e+21'', js ''2''])]"
    using big_limit_fields by (simp add: section_rows_def snapshot_row_def ex_game_def ex_section_def)
  then show ?thesis
    by (simp add: snapshot_csv_def CSV_HEADER_def js_def csvEscape_def needs_quoting_def
          is_high_surrogate_def is_low_surrogate_def)
qed

lemma big_limit_restore:
  "restoreGamesFromCsv (js ''gid,sectionIdx,name,limit,backupLimit'' @ [LF] @ js ''C1,0,A,1e+21,2'' @ [LF]) 5 [] =
     (True, [(js ''C1'', (ex_game [ex_section [js ''A'']])
        \<lparr>title := [0x7FBD, 0x7403, 0x63A5, 0x9F8D], startTime := 5, lastActiveTime := 5,
          sections := [(ex_section [js ''A''])\<lparr>sec_title := SECTION0_TITLE, limit := 1\<rparr>]\<rparr>)])"
  by (simp add: restoreGamesFromCsv_def restore_row_def restored_game_def restored_section_def
        parseCsvLine_def js_def trim_def is_space_def toLowerCase_def Let_def col_def parseInt10_def
        is_digit_def digits_value_def to_number_def ensure2_def put2_def get2_def seen_max_def
        ex_game_def ex_section_def)

lemma lone_surrogate_snapshot:
  "utf8_text (snapshot_csv [(js ''C1'', ex_game [ex_section [[0xD83D]]])]) =
     js ''gid,sectionIdx,name,limit,backupLimit'' @ [LF] @ js ''C1,0,'' @ [0xFFFD] @ js '',3,2'' @ [LF]"
  by (simp add: snapshot_csv_def section_rows_def snapshot_row_def snapshot_fields_def ex_game_def
        ex_section_def CSV_HEADER_def js_def ANON_def csvEscape_def needs_quoting_def show_int_def
        show_nat_def decimal.simps digit_char_def is_high_surrogate_def is_low_surrogate_def)

lemma lone_surrogate_restore:
  "restoreGamesFromCsv (js ''gid,sectionIdx,name,limit,backupLimit'' @ [LF] @ js ''C1,0,'' @ [0xFFFD] @
       js '',3,2'' @ [LF]) 5 [] =
     (True, [(js ''C1'', (ex_game [ex_section [[0xFFFD]]])
        \<lparr>title := [0x7FBD, 0x7403, 0x63A5, 0x9F8D], startTime := 5, lastActiveTime := 5,
          sections := [(ex_section [[0xFFFD]])\<lparr>sec_title := SECTION0_TITLE\<rparr>]\<rparr>)])"
  by (simp add: restoreGamesFromCsv_def restore_row_def restored_game_def restored_section_def
        parseCsvLine_def js_def trim_def is_space_def toLowerCase_def Let_def col_def parseInt10_def
        is_digit_def digits_value_def to_number_def ensure2_def put2_def get2_def seen_max_def
        ex_game_def ex_section_def)

text \<open>
  The claim as it was stated covers every game whose sections satisfy the invariants of
  the data model. A game whose only entry is a placeholder writes no row: the snapshot
  is the header alone, the recovery returns false, and the registry it leaves holds no
  game for that conversation. A real name with a space at its end comes back without the
  space, because the recovery trims every field. The limit \<open>10^21\<close> is written as
  \<^verbatim>\<open>1e+21\<close>, of which \<^verbatim>\<open>parseInt\<close> reads the 1. And a name that is a surrogate
  without its pair comes back as the replacement character.
\<close>

theorem snapshot_roundtrip_counterexample:
  "restoreGamesFromCsv (utf8_text (snapshot_csv [(js ''C1'', ex_game [ex_section [ANON]])])) 5 [] = (False, [])
   \<and> map (\<lambda>(gid, g). map list (sections g))
        (snd (restoreGamesFromCsv
           (utf8_text (snapshot_csv [(js ''C1'', ex_game [ex_section [js ''A '']])])) 5 [])) =
       [[[js ''A'']]]
   \<and> map (\<lambda>(gid, g). map limit (sections g))
        (snd (restoreGamesFromCsv
           (utf8_text (snapshot_csv [(js ''C1'', ex_game [(ex_section [js ''A''])\<lparr>limit := 10 ^ 21\<rparr>])])) 5 [])) =
       [[1]]
   \<and> map (\<lambda>(gid, g). map list (sections g))
        (snd (restoreGamesFromCsv
           (utf8_text (snapshot_csv [(js ''C1'', ex_game [ex_section [[0xD83D]]])])) 5 [])) =
       [[[[0xFFFD]]]]"
  using placeholder_only_restore padded_name_restore big_limit_restore lone_surrogate_restore
  unfolding padded_name_snapshot big_limit_snapshot lone_surrogate_snapshot
  by (simp add: ex_section_def)
end
